theory Spec2Isabelle
  imports Complex_Main "HOL-Library.Sublist"
begin

section \<open>One-dimensional heat conduction: the model of \<^verbatim>\<open>src/main.cpp\<close>\<close>

text \<open>
  The program integrates the heat equation on a uniform grid with a compact
  fourth-order stencil in space and the Crank-Nicolson rule in time.  Every
  definition below follows one block of \<^verbatim>\<open>main\<close>.

  Conventions of the embedding.
  \<^item> A \<^verbatim>\<open>double\<close> is the \<^typ>\<open>real\<close> it denotes.  The products and quotients on
    which the program takes a decision (the spacing and the positions compared with
    the hot band, the stability ratio compared with 0.5, the quotient converted to
    the step count) and the decimal literals that are not doubles are rounded to
    binary64, to nearest with ties to even.  The arithmetic of the matrices, of the
    system operators and of the solver is exact.  A division by zero and a conversion
    to \<^verbatim>\<open>int\<close> that does not fit are error values.
  \<^item> An \<^verbatim>\<open>int\<close> is an \<^typ>\<open>int\<close> together with an explicit check wherever the
    source can leave the 32-bit range.
  \<^item> \<^verbatim>\<open>Eigen::VectorXd\<close> is a list of reals, \<^verbatim>\<open>Eigen::MatrixXd\<close> a list of rows.
    Coefficient access \<^verbatim>\<open>M(i, j)\<close> is range checked, as Eigen's assertion does.
  \<^item> \<^verbatim>\<open>Eigen::PartialPivLU\<close> is a library outside the repository: the
    factorization and its \<^verbatim>\<open>solve\<close> are parameters of the model.
  \<^item> Console output, allocations, the factorization and the solves are recorded
    in a trace of events, in program order.
\<close>

subsection \<open>Errors\<close>

datatype error =
    IndexOutOfRange int int   \<comment> \<open>coefficient access outside the matrix or vector\<close>
  | SignedOverflow            \<comment> \<open>32-bit \<^verbatim>\<open>int\<close> arithmetic leaves its range\<close>
  | CastOutOfRange            \<comment> \<open>\<^verbatim>\<open>static_cast<int>\<close> of a value that does not fit\<close>

definition bind_err :: "error + 'a \<Rightarrow> ('a \<Rightarrow> error + 'b) \<Rightarrow> error + 'b" where
  "bind_err r f = (case r of Inl e \<Rightarrow> Inl e | Inr x \<Rightarrow> f x)"

definition INT_MAX :: int where
  "INT_MAX = 2147483647"

definition INT_MIN :: int where
  "INT_MIN = - 2147483648"

subsection \<open>Double arithmetic\<close>

text \<open>
  The operations on \<^verbatim>\<open>double\<close> are those of IEEE 754 binary64 in the default rounding
  mode, each result rounded once, as compilers for the usual 64-bit targets produce
  them.  Rounding to the nearest integer, a tie going to the even one:
\<close>

definition round_half_even :: "real \<Rightarrow> int" where
  "round_half_even r =
     (let f = \<lfloor>r\<rfloor>; d = r - of_int f
      in if d < 1 / 2 then f else if d > 1 / 2 then f + 1 else if even f then f else f + 1)"

text \<open>
  The binary exponent of a nonzero real, not below the least exponent \<open>-1022\<close> of a
  normal double, and the distance of two neighbouring doubles at that exponent:
  53 significant bits leave 52 below the leading one.
\<close>

definition exponent :: "real \<Rightarrow> int" where
  "exponent x = max \<lfloor>log 2 \<bar>x\<bar>\<rfloor> (- 1022)"

definition quantum :: "real \<Rightarrow> real" where
  "quantum x = 2 powr of_int (exponent x - 52)"

text \<open>
  The double nearest to a real; below the least normal double the quantum stays
  \<open>2 powr - 1074\<close>, which gives the subnormal doubles.  A result beyond the largest
  double is kept finite: it compares with the thresholds of the program as the
  infinity does.
\<close>

definition binary64 :: "real \<Rightarrow> real" where
  "binary64 x =
     (if x = 0 then 0 else of_int (round_half_even (x / quantum x)) * quantum x)"

text \<open>
  The operators \<^verbatim>\<open>*\<close> and \<^verbatim>\<open>/\<close> on two doubles.  An \<^verbatim>\<open>int\<close> operand is converted first,
  without loss since it has at most 32 bits.
\<close>

definition double_mult :: "real \<Rightarrow> real \<Rightarrow> real" where
  "double_mult a b = binary64 (a * b)"

definition double_div :: "real \<Rightarrow> real \<Rightarrow> real" where
  "double_div a b = binary64 (a / b)"

subsection \<open>Vectors and matrices\<close>

type_synonym vec = "real list"
type_synonym matrix = "real list list"

definition rows :: "matrix \<Rightarrow> int" where
  "rows M = int (length M)"

definition cols :: "matrix \<Rightarrow> int" where
  "cols M = (case M of [] \<Rightarrow> 0 | r # _ \<Rightarrow> int (length r))"

text \<open>\<^verbatim>\<open>Eigen::MatrixXd::Zero(r, c)\<close>.\<close>

definition Zero :: "int \<Rightarrow> int \<Rightarrow> matrix" where
  "Zero r c = replicate (nat r) (replicate (nat c) 0)"

text \<open>\<^verbatim>\<open>M(i, j) = v\<close>: in range it stores, out of range it is an error.\<close>

definition set_coeff :: "matrix \<Rightarrow> int \<Rightarrow> int \<Rightarrow> real \<Rightarrow> error + matrix" where
  "set_coeff M i j v =
     (if 0 \<le> i \<and> i < rows M \<and> 0 \<le> j \<and> j < cols M
      then Inr (M[nat i := (M ! nat i)[nat j := v]])
      else Inl (IndexOutOfRange i j))"

text \<open>\<^verbatim>\<open>T(i) = v\<close> on a vector.\<close>

definition set_elem :: "vec \<Rightarrow> int \<Rightarrow> real \<Rightarrow> error + vec" where
  "set_elem T i v =
     (if 0 \<le> i \<and> i < int (length T) then Inr (T[nat i := v])
      else Inl (IndexOutOfRange i 0))"

text \<open>Reading a coefficient that exists.\<close>

definition coeff :: "matrix \<Rightarrow> nat \<Rightarrow> nat \<Rightarrow> real" where
  "coeff M i j = M ! i ! j"

text \<open>\<^verbatim>\<open>M / s\<close>, \<^verbatim>\<open>s * M\<close>, \<^verbatim>\<open>M - N\<close>, \<^verbatim>\<open>M + N\<close> and \<^verbatim>\<open>M * x\<close>, coefficient by coefficient.\<close>

definition mat_div :: "matrix \<Rightarrow> real \<Rightarrow> matrix" where
  "mat_div M s = map (map (\<lambda>x. x / s)) M"

definition scalar_mult :: "real \<Rightarrow> matrix \<Rightarrow> matrix" where
  "scalar_mult s M = map (map (\<lambda>x. s * x)) M"

definition mat_sub :: "matrix \<Rightarrow> matrix \<Rightarrow> matrix" where
  "mat_sub M N = map (\<lambda>(r, s). map (\<lambda>(x, y). x - y) (zip r s)) (zip M N)"

definition mat_add :: "matrix \<Rightarrow> matrix \<Rightarrow> matrix" where
  "mat_add M N = map (\<lambda>(r, s). map (\<lambda>(x, y). x + y) (zip r s)) (zip M N)"

definition dot :: "vec \<Rightarrow> vec \<Rightarrow> real" where
  "dot r x = sum_list (map (\<lambda>(a, b). a * b) (zip r x))"

definition mat_vec :: "matrix \<Rightarrow> vec \<Rightarrow> vec" where
  "mat_vec M x = map (\<lambda>r. dot r x) M"

subsection \<open>Grid and initial state (lines 97--133)\<close>

text \<open>
  \<^verbatim>\<open>double dx = L / (num_x + 1)\<close>: the sum is computed in \<^verbatim>\<open>int\<close>, converted without
  loss, and the quotient is a double.
\<close>

definition L :: real where
  "L = 1"

definition grid_spacing :: "int \<Rightarrow> error + real" where
  "grid_spacing num_x =
     (if num_x + 1 > INT_MAX then Inl SignedOverflow
      else Inr (double_div L (of_int (num_x + 1))))"

text \<open>
  The body of the loop of lines 122--133, for one cell.  The position is the double
  product \<^verbatim>\<open>(i + 1) * dx\<close>; the literals \<^verbatim>\<open>0.4\<close> and \<^verbatim>\<open>0.6\<close> are the doubles nearest to
  them.
\<close>

definition initial_cell :: "real \<Rightarrow> int \<Rightarrow> vec \<Rightarrow> error + vec" where
  "initial_cell dx i T =
     (let x = double_mult (of_int (i + 1)) dx
      in if x \<ge> binary64 (4 / 10) \<and> x \<le> binary64 (6 / 10)
         then set_elem T i 100 else set_elem T i 0)"

function initial_loop :: "real \<Rightarrow> int \<Rightarrow> int \<Rightarrow> vec \<Rightarrow> error + vec" where
  "initial_loop dx num_x i T =
     (if i < num_x
      then (case initial_cell dx i T of
              Inl e \<Rightarrow> Inl e
            | Inr T' \<Rightarrow> initial_loop dx num_x (i + 1) T')
      else Inr T)"
  by pat_completeness auto
termination
  by (relation "measure (\<lambda>(dx, num_x, i, T). nat (num_x - i))") auto

text \<open>
  \<^verbatim>\<open>Eigen::VectorXd T_current(num_x)\<close> leaves the coefficients indeterminate;
  the loop takes the fresh vector as it is and overwrites every cell.
\<close>

definition initial_state :: "int \<Rightarrow> real \<Rightarrow> vec \<Rightarrow> error + vec" where
  "initial_state num_x dx fresh = initial_loop dx num_x 0 fresh"

subsection \<open>Operator assembly (lines 147--179)\<close>

text \<open>One pass of the loop over the interior rows, lines 155--161.\<close>

definition interior_row :: "int \<Rightarrow> matrix \<times> matrix \<Rightarrow> error + matrix \<times> matrix" where
  "interior_row i AB =
     (case AB of (A, B) \<Rightarrow>
        bind_err (set_coeff A i (i - 1) (1 / 6)) (\<lambda>A.
        bind_err (set_coeff A i i (4 / 6)) (\<lambda>A.
        bind_err (set_coeff A i (i + 1) (1 / 6)) (\<lambda>A.
        bind_err (set_coeff B i (i - 1) 1) (\<lambda>B.
        bind_err (set_coeff B i i (- 2)) (\<lambda>B.
        bind_err (set_coeff B i (i + 1) 1) (\<lambda>B.
        Inr (A, B))))))))"

function interior_loop :: "int \<Rightarrow> int \<Rightarrow> matrix \<times> matrix \<Rightarrow> error + matrix \<times> matrix" where
  "interior_loop num_x i AB =
     (if i < num_x - 1
      then (case interior_row i AB of
              Inl e \<Rightarrow> Inl e
            | Inr AB' \<Rightarrow> interior_loop num_x (i + 1) AB')
      else Inr AB)"
  by pat_completeness auto
termination
  by (relation "measure (\<lambda>(num_x, i, AB). nat (num_x - 1 - i))") auto

text \<open>The two boundary rows, lines 166--177, in the order of the source.\<close>

definition boundary_rows :: "int \<Rightarrow> matrix \<times> matrix \<Rightarrow> error + matrix \<times> matrix" where
  "boundary_rows num_x AB =
     (case AB of (A, B) \<Rightarrow>
        bind_err (set_coeff A 0 0 (4 / 6)) (\<lambda>A.
        bind_err (set_coeff A 0 1 (2 / 6)) (\<lambda>A.
        bind_err (set_coeff B 0 0 (- 2)) (\<lambda>B.
        bind_err (set_coeff B 0 1 2) (\<lambda>B.
        bind_err (set_coeff A (num_x - 1) (num_x - 2) (2 / 6)) (\<lambda>A.
        bind_err (set_coeff A (num_x - 1) (num_x - 1) (4 / 6)) (\<lambda>A.
        bind_err (set_coeff B (num_x - 1) (num_x - 2) 2) (\<lambda>B.
        bind_err (set_coeff B (num_x - 1) (num_x - 1) (- 2)) (\<lambda>B.
        Inr (A, B))))))))))"

text \<open>Lines 147--177: the operators before the diffusion operator is scaled.\<close>

definition assemble_stencils :: "int \<Rightarrow> error + matrix \<times> matrix" where
  "assemble_stencils num_x =
     bind_err (interior_loop num_x 1 (Zero num_x num_x, Zero num_x num_x))
       (boundary_rows num_x)"

text \<open>Lines 147--179: the averaging operator \<open>A\<close> and the diffusion operator \<open>B / dx\<^sup>2\<close>.\<close>

definition operator_assembly :: "int \<Rightarrow> real \<Rightarrow> error + matrix \<times> matrix" where
  "operator_assembly num_x dx =
     bind_err (assemble_stencils num_x) (\<lambda>(A, B). Inr (A, mat_div B (dx * dx)))"

subsection \<open>System builder (lines 182--192)\<close>

text \<open>
  \<^verbatim>\<open>LHS = A - factor * B\<close> and \<^verbatim>\<open>RHS = A + factor * B\<close> with
  \<^verbatim>\<open>factor = alpha * dt / 2.0\<close>.  The identity matrix of line 182 is never read.
\<close>

definition build_system :: "matrix \<Rightarrow> matrix \<Rightarrow> real \<Rightarrow> real \<Rightarrow> matrix \<times> matrix" where
  "build_system A B alpha dt =
     (let factor = alpha * dt / 2;
          LHS = mat_sub A (scalar_mult factor B);
          RHS = mat_add A (scalar_mult factor B)
      in (LHS, RHS))"

subsection \<open>Step count (line 99)\<close>

text \<open>
  \<^verbatim>\<open>static_cast<int>(total_time / dt)\<close> drops the fractional part of the double
  quotient; the conversion is undefined when the result does not fit an \<^verbatim>\<open>int\<close>, which
  includes the infinite or undefined quotient of a zero \<^verbatim>\<open>dt\<close>.
\<close>

definition truncate_toward_zero :: "real \<Rightarrow> int" where
  "truncate_toward_zero q = (if 0 \<le> q then \<lfloor>q\<rfloor> else \<lceil>q\<rceil>)"

definition step_count :: "real \<Rightarrow> real \<Rightarrow> error + int" where
  "step_count total_time dt =
     (if dt = 0 then Inl CastOutOfRange
      else let q = double_div total_time dt
           in if of_int INT_MIN - 1 < q \<and> q < of_int INT_MAX + 1 then Inr (truncate_toward_zero q)
              else Inl CastOutOfRange)"

subsection \<open>Events and outcomes\<close>

text \<open>
  What a run does besides computing: one event per statement with an effect, in program
  order.  The type \<open>'f\<close> is the factorization object of the linear-algebra library.
  Result export (lines 217--240) is one event carrying what the writer receives.
\<close>

datatype 'f event =
    Usage                                       \<comment> \<open>\<^verbatim>\<open>printUsage\<close>, on stderr\<close>
  | ErrorCellsRequired                          \<comment> \<open>line 86, on stderr\<close>
  | ErrorCellsPositive                          \<comment> \<open>line 93, on stderr\<close>
  | Summary int real real real real int string  \<comment> \<open>lines 101--109, on stdout\<close>
  | CourantNumber real                          \<comment> \<open>line 113, on stdout\<close>
  | CourantWarning                              \<comment> \<open>line 116, on stderr\<close>
  | AllocVector int                             \<comment> \<open>lines 120 and 195\<close>
  | AllocMatrix int int                         \<comment> \<open>lines 147, 148, 182, 188, 189\<close>
  | PrintInitial vec                            \<comment> \<open>lines 139--140, on stdout\<close>
  | MakeResultsDir                              \<comment> \<open>line 143\<close>
  | Factorize matrix                            \<comment> \<open>line 192\<close>
  | Solve 'f vec                                \<comment> \<open>line 205\<close>
  | Progress int int                            \<comment> \<open>line 213, on stdout\<close>
  | ExportResults string real real "vec list"   \<comment> \<open>lines 217--240: files written\<close>
  | Completed                                   \<comment> \<open>line 242, on stdout\<close>

datatype exit_status =
    Exit int          \<comment> \<open>\<^verbatim>\<open>return\<close> from \<^verbatim>\<open>main\<close>\<close>
  | Uncaught string   \<comment> \<open>an exception nobody catches: \<^verbatim>\<open>std::terminate\<close>\<close>
  | Aborted           \<comment> \<open>\<^verbatim>\<open>abort()\<close>\<close>
  | Failed error      \<comment> \<open>failed range assertion or undefined arithmetic\<close>

record 'f outcome =
  status :: exit_status
  trace :: "'f event list"
  history :: "vec list"

subsection \<open>Time-stepping loop (lines 195--215)\<close>

record 'f loop_state =
  T_current :: vec
  T_history :: "vec list"
  events :: "'f event list"

text \<open>Line 211; both operands of the divisions are positive inside the loop.\<close>

definition progress_due :: "int \<Rightarrow> int \<Rightarrow> bool" where
  "progress_due num_t_steps t \<longleftrightarrow>
     (t + 1) mod (if num_t_steps div 10 = 0 then 1 else num_t_steps div 10) = 0
     \<or> t = num_t_steps - 1"

text \<open>The body of the loop, lines 202--214.\<close>

definition time_step ::
  "('f \<Rightarrow> vec \<Rightarrow> vec) \<Rightarrow> 'f \<Rightarrow> matrix \<Rightarrow> int \<Rightarrow> int \<Rightarrow> 'f loop_state \<Rightarrow> 'f loop_state" where
  "time_step solve solver RHS num_t_steps t s =
     (let b = mat_vec RHS (T_current s);
          T_next = solve solver b
      in \<lparr>T_current = T_next,
          T_history = T_history s @ [T_next],
          events = events s @ [Solve solver b]
                  @ (if progress_due num_t_steps t then [Progress (t + 1) num_t_steps] else [])\<rparr>)"

function time_loop ::
  "('f \<Rightarrow> vec \<Rightarrow> vec) \<Rightarrow> 'f \<Rightarrow> matrix \<Rightarrow> int \<Rightarrow> int \<Rightarrow> 'f loop_state \<Rightarrow> 'f loop_state" where
  "time_loop solve solver RHS num_t_steps t s =
     (if t < num_t_steps
      then time_loop solve solver RHS num_t_steps (t + 1)
             (time_step solve solver RHS num_t_steps t s)
      else s)"
  by pat_completeness auto
termination
  by (relation "measure (\<lambda>(solve, solver, RHS, num_t_steps, t, s). nat (num_t_steps - t))") auto

subsection \<open>The simulation (lines 97--243)\<close>

text \<open>The coefficients of a vector just allocated are indeterminate; zero stands for them.\<close>

definition fresh_vector :: "int \<Rightarrow> vec" where
  "fresh_vector n = replicate (nat n) 0"

definition failed :: "error \<Rightarrow> 'f event list \<Rightarrow> 'f outcome" where
  "failed e evs = \<lparr>status = Failed e, trace = evs, history = []\<rparr>"

text \<open>
  The stability ratio of line 112 is \<^verbatim>\<open>alpha * dt / (dx * dx)\<close>: two double products and
  their double quotient; the threshold \<^verbatim>\<open>0.5\<close> of line 114 is a double.
\<close>

definition simulate ::
  "(matrix \<Rightarrow> 'f) \<Rightarrow> ('f \<Rightarrow> vec \<Rightarrow> vec) \<Rightarrow> int \<Rightarrow> real \<Rightarrow> real \<Rightarrow> real \<Rightarrow> string \<Rightarrow> 'f outcome" where
  "simulate factorize solve num_x alpha dt total_time output_prefix =
     (case grid_spacing num_x of
        Inl e \<Rightarrow> failed e []
      | Inr dx \<Rightarrow>
     (case step_count total_time dt of
        Inl e \<Rightarrow> failed e []
      | Inr num_t_steps \<Rightarrow>
     (let courant_number = double_div (double_mult alpha dt) (double_mult dx dx);
          ev1 = [Summary num_x alpha dx dt total_time num_t_steps output_prefix,
                 CourantNumber courant_number]
                @ (if courant_number > 5 / 10 then [CourantWarning] else [])
                @ [AllocVector num_x]
      in case initial_state num_x dx (fresh_vector num_x) of
           Inl e \<Rightarrow> failed e ev1
         | Inr T0 \<Rightarrow>
     (let ev2 = ev1 @ [PrintInitial T0, MakeResultsDir,
                       AllocMatrix num_x num_x, AllocMatrix num_x num_x]
      in case operator_assembly num_x dx of
           Inl e \<Rightarrow> failed e ev2
         | Inr (A, B) \<Rightarrow>
     (let (LHS, RHS) = build_system A B alpha dt;
          solver = factorize LHS;
          ev3 = ev2 @ [AllocMatrix num_x num_x, AllocMatrix num_x num_x,
                       AllocMatrix num_x num_x, Factorize LHS, AllocVector num_x];
          s = time_loop solve solver RHS num_t_steps 0
                \<lparr>T_current = T0, T_history = [T0], events = ev3\<rparr>
      in \<lparr>status = Exit 0,
          trace = events s @ [ExportResults output_prefix dx dt (T_history s), Completed],
          history = T_history s\<rparr>)))))"

subsection \<open>Command line (lines 32--95)\<close>







section \<open>Notions used in the statements\<close>

subsection \<open>The operators and the initial state as the specification words them\<close>

text \<open>\<open>M\<close> is an \<open>n \<times> n\<close> matrix whose coefficient in row \<open>i\<close>, column \<open>j\<close> is \<open>f i j\<close>.\<close>

definition agrees :: "nat \<Rightarrow> matrix \<Rightarrow> (nat \<Rightarrow> nat \<Rightarrow> real) \<Rightarrow> bool" where
  "agrees n M f \<longleftrightarrow>
     length M = n \<and> (\<forall>i<n. length (M ! i) = n \<and> (\<forall>j<n. M ! i ! j = f i j))"

text \<open>
  Interior rows \<open>1 \<le> i \<le> count - 2\<close> carry \<open>[1/6, 4/6, 1/6]\<close> and \<open>[1, -2, 1]\<close> at
  columns \<open>i - 1, i, i + 1\<close>; row \<open>0\<close> carries \<open>4/6, 2/6\<close> and \<open>-2, 2\<close> at columns
  \<open>0, 1\<close>; row \<open>count - 1\<close> is the mirror image; every other entry is zero.
\<close>

definition spec_averaging_entry :: "nat \<Rightarrow> nat \<Rightarrow> nat \<Rightarrow> real" where
  "spec_averaging_entry count i j =
     (if 1 \<le> i \<and> i + 2 \<le> count
      then (if j + 1 = i then 1 / 6 else if j = i then 4 / 6 else if j = i + 1 then 1 / 6 else 0)
      else if i = 0
      then (if j = 0 then 4 / 6 else if j = 1 then 2 / 6 else 0)
      else (if j + 2 = count then 2 / 6 else if j + 1 = count then 4 / 6 else 0))"

definition spec_diffusion_entry :: "nat \<Rightarrow> nat \<Rightarrow> nat \<Rightarrow> real" where
  "spec_diffusion_entry count i j =
     (if 1 \<le> i \<and> i + 2 \<le> count
      then (if j + 1 = i then 1 else if j = i then - 2 else if j = i + 1 then 1 else 0)
      else if i = 0
      then (if j = 0 then - 2 else if j = 1 then 2 else 0)
      else (if j + 2 = count then 2 else if j + 1 = count then - 2 else 0))"

text \<open>
  The initial profile as the specification words it, in the arithmetic of the program:
  cell \<open>i\<close> sits at the position that the double product \<open>(i + 1) * spacing\<close> gives,
  and holds 100 when that position lies in the closed interval between the doubles
  \<open>0.4\<close> and \<open>0.6\<close>, and 0 otherwise.
\<close>

definition position_of :: "real \<Rightarrow> nat \<Rightarrow> real" where
  "position_of spacing i = double_mult (real i + 1) spacing"

definition hot_band :: "real \<Rightarrow> nat \<Rightarrow> real" where
  "hot_band spacing i =
     (let position = position_of spacing i
      in if binary64 (4 / 10) \<le> position \<and> position \<le> binary64 (6 / 10) then 100 else 0)"

subsection \<open>A run in closed form\<close>

text \<open>The operators, the initial profile and the spacing in closed form.\<close>

definition averaging_operator :: "nat \<Rightarrow> matrix" where
  "averaging_operator n = map (\<lambda>i. map (spec_averaging_entry n i) [0..<n]) [0..<n]"

definition diffusion_operator :: "nat \<Rightarrow> real \<Rightarrow> matrix" where
  "diffusion_operator n dx =
     map (\<lambda>i. map (\<lambda>j. spec_diffusion_entry n i j / (dx * dx)) [0..<n]) [0..<n]"

definition initial_profile :: "nat \<Rightarrow> real \<Rightarrow> vec" where
  "initial_profile n dx = map (hot_band dx) [0..<n]"

definition spacing_of :: "int \<Rightarrow> real" where
  "spacing_of num_x = double_div L (of_int num_x + 1)"

text \<open>The stability ratio \<open>alpha * dt / dx\<^sup>2\<close> as line 112 computes it.\<close>

definition courant_ratio :: "real \<Rightarrow> real \<Rightarrow> real \<Rightarrow> real" where
  "courant_ratio alpha dt dx = double_div (double_mult alpha dt) (double_mult dx dx)"

text \<open>A real that is a double.\<close>

definition is_double :: "real \<Rightarrow> bool" where
  "is_double x \<longleftrightarrow> binary64 x = x"

text \<open>The system operators of a run.\<close>

definition system_of :: "int \<Rightarrow> real \<Rightarrow> real \<Rightarrow> matrix \<times> matrix" where
  "system_of num_x alpha dt =
     build_system (averaging_operator (nat num_x))
       (diffusion_operator (nat num_x) (spacing_of num_x)) alpha dt"

text \<open>One time step as a function of the state: multiply by the right-hand operator, then solve.\<close>

definition advance :: "('f \<Rightarrow> vec \<Rightarrow> vec) \<Rightarrow> 'f \<Rightarrow> matrix \<Rightarrow> vec \<Rightarrow> vec" where
  "advance solve solver RHS T = solve solver (mat_vec RHS T)"

text \<open>What precedes the loop in the trace of a run that reaches it.\<close>

definition preamble ::
  "int \<Rightarrow> real \<Rightarrow> real \<Rightarrow> real \<Rightarrow> int \<Rightarrow> string \<Rightarrow> matrix \<Rightarrow> 'f event list" where
  "preamble num_x alpha dt total_time N output_prefix LHS =
     (let dx = spacing_of num_x; T0 = initial_profile (nat num_x) dx
      in [Summary num_x alpha dx dt total_time N output_prefix,
          CourantNumber (courant_ratio alpha dt dx)]
         @ (if courant_ratio alpha dt dx > 5 / 10 then [CourantWarning] else [])
         @ [AllocVector num_x, PrintInitial T0, MakeResultsDir,
            AllocMatrix num_x num_x, AllocMatrix num_x num_x,
            AllocMatrix num_x num_x, AllocMatrix num_x num_x,
            AllocMatrix num_x num_x, Factorize LHS, AllocVector num_x])"

subsection \<open>Reading a trace\<close>

text \<open>Events of the two kinds the linear-algebra library produces.\<close>

fun is_Factorize :: "'f event \<Rightarrow> bool" where
  "is_Factorize (Factorize M) = True"
| "is_Factorize _ = False"

fun is_Solve :: "'f event \<Rightarrow> bool" where
  "is_Solve (Solve f b) = True"
| "is_Solve _ = False"

text \<open>The events of the loop are solves with the given factorization and progress lines.\<close>

fun loop_event :: "'f \<Rightarrow> 'f event \<Rightarrow> bool" where
  "loop_event solver (Solve f b) = (f = solver)"
| "loop_event solver (Progress a b) = True"
| "loop_event solver _ = False"

text \<open>The event that reports the stability ratio.\<close>

fun is_CourantNumber :: "'f event \<Rightarrow> bool" where
  "is_CourantNumber (CourantNumber r) = True"
| "is_CourantNumber _ = False"




subsection \<open>Invalid configurations\<close>







subsection \<open>The contract of the solver, and energies\<close>

text \<open>
  What the model asks of the library's factorization and solve for a system matrix
  \<open>M\<close>, in exact arithmetic: for every right-hand side of the dimension of \<open>M\<close> the
  result has that dimension and solves the system.
\<close>

definition solves_system :: "(matrix \<Rightarrow> 'f) \<Rightarrow> ('f \<Rightarrow> vec \<Rightarrow> vec) \<Rightarrow> matrix \<Rightarrow> bool" where
  "solves_system factorize solve M \<longleftrightarrow>
     (\<forall>b. length b = length M \<longrightarrow>
          length (solve (factorize M) b) = length M
          \<and> mat_vec M (solve (factorize M) b) = b)"

text \<open>
  Thermal energy of a state as the specification words it, the sum of the entries
  weighted by the spacing; and the same sum with the first and the last cell counted
  half (the trapezoid rule on the grid).
\<close>

definition thermal_energy :: "real \<Rightarrow> vec \<Rightarrow> real" where
  "thermal_energy dx T = dx * sum_list T"

definition trapezoid_energy :: "real \<Rightarrow> vec \<Rightarrow> real" where
  "trapezoid_energy dx T = dx * (sum_list T - hd T / 2 - last T / 2)"

text \<open>The trapezoid sum of the first \<open>n\<close> values of a sequence.\<close>

definition trapezoid :: "nat \<Rightarrow> (nat \<Rightarrow> real) \<Rightarrow> real" where
  "trapezoid n y = (\<Sum>i<n. y i) - y 0 / 2 - y (n - 1) / 2"

subsection \<open>Entry maps used in the proofs\<close>

text \<open>Entry maps after the writes of the assembly: three writes in row \<open>k\<close>;
  two writes in row \<open>k\<close>; the stencil \<open>a, b, a\<close> in every row from \<open>lo\<close> to \<open>n - 2\<close>.\<close>

definition row3 :: "nat \<Rightarrow> real \<Rightarrow> real \<Rightarrow> real \<Rightarrow> (nat \<Rightarrow> nat \<Rightarrow> real) \<Rightarrow> nat \<Rightarrow> nat \<Rightarrow> real" where
  "row3 k a b c f i j =
     (if i = k then (if j + 1 = k then a else if j = k then b else if j = k + 1 then c else f i j)
      else f i j)"

definition band :: "nat \<Rightarrow> nat \<Rightarrow> real \<Rightarrow> real \<Rightarrow> (nat \<Rightarrow> nat \<Rightarrow> real) \<Rightarrow> nat \<Rightarrow> nat \<Rightarrow> real" where
  "band lo n a b f i j =
     (if lo \<le> i \<and> i + 1 < n
      then (if j + 1 = i then a else if j = i then b else if j = i + 1 then a else f i j)
      else f i j)"

definition pair2 :: "nat \<Rightarrow> nat \<Rightarrow> real \<Rightarrow> nat \<Rightarrow> real \<Rightarrow> (nat \<Rightarrow> nat \<Rightarrow> real) \<Rightarrow> nat \<Rightarrow> nat \<Rightarrow> real" where
  "pair2 k j1 v1 j2 v2 f i j =
     (if i = k \<and> j = j2 then v2 else if i = k \<and> j = j1 then v1 else f i j)"

text \<open>
  The stencil shared by both operators: \<open>off, diag, off\<close> around the diagonal of the
  interior rows, \<open>diag, bnd\<close> in the first row and \<open>bnd, diag\<close> in the last.
\<close>

definition closure_entry :: "real \<Rightarrow> real \<Rightarrow> real \<Rightarrow> nat \<Rightarrow> nat \<Rightarrow> nat \<Rightarrow> real" where
  "closure_entry off diag bnd n i j =
     (if 1 \<le> i \<and> i + 2 \<le> n
      then (if j + 1 = i then off else if j = i then diag else if j = i + 1 then off else 0)
      else if i = 0
      then (if j = 0 then diag else if j = 1 then bnd else 0)
      else (if j + 2 = n then bnd else if j + 1 = n then diag else 0))"

subsection \<open>Concrete inputs: an exact solver and two conversions\<close>

text \<open>
  Cramer's rule, to run the model on concrete inputs: \<open>cramer_solve\<close> stands where
  the library's \<^verbatim>\<open>solve\<close> does, the factorization object being the matrix itself.
\<close>

fun det :: "matrix \<Rightarrow> real" where
  "det [] = 1"
| "det (r # M) =
     sum_list (map (\<lambda>j. (- 1) ^ j * r ! j * det (map (\<lambda>row. take j row @ drop (Suc j) row) M))
                 [0..<length r])"

definition replace_col :: "matrix \<Rightarrow> nat \<Rightarrow> vec \<Rightarrow> matrix" where
  "replace_col M j b = map (\<lambda>(row, v). row[j := v]) (zip M b)"

definition cramer_solve :: "matrix \<Rightarrow> vec \<Rightarrow> vec" where
  "cramer_solve M b = map (\<lambda>j. det (replace_col M j b) / det M) [0..<length M]"



section \<open>Properties\<close>

subsection \<open>Double arithmetic\<close>

lemma round_half_even_error: "\<bar>of_int (round_half_even r) - r\<bar> \<le> 1 / 2"
  unfolding round_half_even_def Let_def by (auto; linarith)

lemma round_half_even_of_int [simp]: "round_half_even (of_int m) = m"
  by (simp add: round_half_even_def)

lemma round_half_even_nonneg: "0 \<le> r \<Longrightarrow> 0 \<le> round_half_even r"
  unfolding round_half_even_def Let_def by auto

lemma quantum_pos [simp]: "0 < quantum x"
  by (simp add: quantum_def)

lemma quantum_nonzero [simp]: "quantum x \<noteq> 0"
  by (simp add: quantum_def)

lemma quantum_nonneg [simp]: "0 \<le> quantum x"
  by (simp add: quantum_def)

lemma exponent_lower: "- 1022 \<le> exponent x"
  by (simp add: exponent_def)

lemma exponent_upper:
  assumes "x \<noteq> 0"
  shows "\<bar>x\<bar> < 2 powr of_int (exponent x + 1)"
proof -
  have "\<bar>x\<bar> < 2 powr of_int (\<lfloor>log 2 \<bar>x\<bar>\<rfloor> + 1)"
    using assms floor_log_eq_powr_iff [of "\<bar>x\<bar>" 2 "\<lfloor>log 2 \<bar>x\<bar>\<rfloor>"] by simp
  also have "\<dots> \<le> 2 powr of_int (exponent x + 1)"
    by (intro powr_mono) (simp_all add: exponent_def)
  finally show ?thesis .
qed

lemma exponent_normal:
  assumes "x \<noteq> 0" "- 1022 < exponent x"
  shows "2 powr of_int (exponent x) \<le> \<bar>x\<bar>"
proof -
  have "exponent x = \<lfloor>log 2 \<bar>x\<bar>\<rfloor>" using assms(2) by (simp add: exponent_def max_def split: if_splits)
  then show ?thesis
    using assms floor_log_eq_powr_iff [of "\<bar>x\<bar>" 2 "\<lfloor>log 2 \<bar>x\<bar>\<rfloor>"] by simp
qed

lemma exponent_eqI:
  assumes "2 powr of_int e \<le> \<bar>x\<bar>" "\<bar>x\<bar> < 2 powr of_int (e + 1)" "- 1022 \<le> e"
  shows "exponent x = e"
proof -
  have "0 < (2::real) powr of_int e" by simp
  then have "0 < \<bar>x\<bar>" using assms(1) by linarith
  then have "\<lfloor>log 2 \<bar>x\<bar>\<rfloor> = e"
    using assms floor_log_eq_powr_iff [of "\<bar>x\<bar>" 2 e] by simp
  then show ?thesis using assms(3) by (simp add: exponent_def)
qed

lemma exponent_mono:
  assumes "0 < a" "a \<le> b"
  shows "exponent a \<le> exponent b"
proof -
  have "log 2 \<bar>a\<bar> \<le> log 2 \<bar>b\<bar>" using assms by simp
  then have "\<lfloor>log 2 \<bar>a\<bar>\<rfloor> \<le> \<lfloor>log 2 \<bar>b\<bar>\<rfloor>" by (rule floor_mono)
  then show ?thesis by (simp add: exponent_def)
qed

lemma binary64_eval:
  assumes "2 ^ 52 \<le> \<bar>x\<bar> * 2 ^ n" "\<bar>x\<bar> * 2 ^ n < 2 ^ 53" "n \<le> 1074"
  shows "binary64 x = of_int (round_half_even (x * 2 ^ n)) / 2 ^ n"
proof -
  have p: "(2::real) powr (of_int (52 - int n)) = 2 ^ 52 / 2 ^ n"
    "(2::real) powr (of_int (52 - int n + 1)) = 2 ^ 53 / 2 ^ n"
    using powr_realpow [of 2 n] powr_realpow [of 2 52] powr_realpow [of 2 53]
    by (simp_all add: powr_diff)
  have "2 powr of_int (52 - int n) \<le> \<bar>x\<bar>" "\<bar>x\<bar> < 2 powr of_int (52 - int n + 1)"
    unfolding p using assms(1,2) by (simp_all add: field_simps)
  then have "exponent x = 52 - int n" using assms(3) by (intro exponent_eqI) simp_all
  then have q: "quantum x = 1 / 2 ^ n"
    by (simp add: quantum_def powr_minus powr_realpow inverse_eq_divide)
  have "x \<noteq> 0" using assms(1) by auto
  then show ?thesis by (simp add: binary64_def q)
qed

lemma binary64_nonneg: "0 \<le> x \<Longrightarrow> 0 \<le> binary64 x"
  using round_half_even_nonneg [of "x / quantum x"] less_imp_le [OF quantum_pos [of x]]
  by (simp add: binary64_def)

lemma binary64_error: "\<bar>binary64 x - x\<bar> \<le> quantum x / 2"
proof (cases "x = 0")
  case True then show ?thesis using less_imp_le [OF quantum_pos [of 0]] by (simp add: binary64_def)
next
  case False
  define r where "r = x / quantum x"
  have x: "x = r * quantum x" by (simp add: r_def)
  have "binary64 x - x = (of_int (round_half_even r) - r) * quantum x"
    using False x by (simp add: binary64_def r_def [symmetric] left_diff_distrib)
  then have "\<bar>binary64 x - x\<bar> = \<bar>of_int (round_half_even r) - r\<bar> * quantum x"
    by (simp add: abs_mult)
  also have "\<dots> \<le> 1 / 2 * quantum x"
    by (intro mult_right_mono round_half_even_error) simp
  finally show ?thesis by simp
qed

text \<open>A real below the midpoint of 1 and the double before it rounds below 1.\<close>

lemma binary64_less_one:
  assumes "0 \<le> y" "y < 1 - 1 / 2 ^ 54"
  shows "binary64 y < 1"
proof (cases "y < 1 / 2")
  case True
  show ?thesis
  proof (cases "y = 0")
    case True then show ?thesis by (simp add: binary64_def)
  next
    case False
    have "\<lfloor>log 2 \<bar>y\<bar>\<rfloor> \<le> - 2"
    proof -
      have "log 2 \<bar>y\<bar> < log 2 (1 / 2)" using assms(1) False True by simp
      also have "\<dots> = - 1" by (simp add: log_divide)
      finally have "log 2 \<bar>y\<bar> < - 1" .
      then show ?thesis by (simp add: floor_le_iff)
    qed
    then have "exponent y \<le> - 2" by (simp add: exponent_def)
    then have "quantum y \<le> 2 powr of_int (- 2 - 52)"
      unfolding quantum_def by (intro powr_mono) simp_all
    also have "\<dots> \<le> 1 / 2" by (simp add: powr_minus powr_realpow [of 2 54, simplified] inverse_eq_divide)
    finally have "quantum y \<le> 1 / 2" .
    then show ?thesis using binary64_error [of y] True by linarith
  qed
next
  case False
  then have h: "1 / 2 \<le> \<bar>y\<bar>" "\<bar>y\<bar> < 1" using assms by simp_all
  have "exponent y = - 1"
    using h by (intro exponent_eqI) (simp_all add: powr_minus inverse_eq_divide)
  then have q: "quantum y = 1 / 2 ^ 53"
    by (simp add: quantum_def powr_minus powr_realpow [of 2 53, simplified] inverse_eq_divide)
  have "y * 2 ^ 53 < 2 ^ 53 - 1 / 2" using assms(2) by (simp add: field_simps)
  then have "of_int (round_half_even (y * 2 ^ 53)) < (2 ^ 53 :: real)"
    using round_half_even_error [of "y * 2 ^ 53"] by linarith
  then have "round_half_even (y * 2 ^ 53) < 2 ^ 53"
    using of_int_less_iff [where ?'a = real, of "round_half_even (y * 2 ^ 53)" "2 ^ 53"] by simp
  then have "round_half_even (y * 2 ^ 53) \<le> 2 ^ 53 - 1" by simp
  then have "of_int (round_half_even (y * 2 ^ 53)) \<le> (2 ^ 53 - 1 :: real)"
    using of_int_le_iff [where ?'a = real, of "round_half_even (y * 2 ^ 53)" "2 ^ 53 - 1"] by simp
  moreover have "y \<noteq> 0" using h by auto
  ultimately show ?thesis by (simp add: binary64_def q field_simps)
qed

text \<open>Two doubles are multiples of the quantum of the smaller one.\<close>

lemma double_multiple:
  assumes "is_double b" "0 < a" "a \<le> b"
  shows "\<exists>m :: int. b = of_int m * quantum a"
proof -
  have b: "b = of_int (round_half_even (b / quantum b)) * quantum b"
    using assms unfolding is_double_def binary64_def by (auto split: if_splits)
  have "exponent a \<le> exponent b" using assms by (intro exponent_mono)
  then obtain j :: nat where j: "exponent b = exponent a + int j"
    using zle_iff_zadd by blast
  have "real_of_int (exponent b - 52) = real j + real_of_int (exponent a - 52)"
    by (simp add: j)
  then have "quantum b = 2 powr real j * quantum a"
    by (simp only: quantum_def powr_add)
  then have "quantum b = 2 ^ j * quantum a"
    by (simp add: powr_realpow)
  then have "b = of_int (round_half_even (b / quantum b) * 2 ^ j) * quantum a"
    using b by simp
  then show ?thesis by blast
qed

lemma double_gap:
  assumes "is_double a" "is_double b" "0 < a" "a < b"
  shows "a + quantum a \<le> b"
proof -
  obtain m :: int where m: "a = of_int m * quantum a"
    using double_multiple [of a a] assms(1,3) by blast
  obtain k :: int where k: "b = of_int k * quantum a"
    using double_multiple [of b a] assms(2,3,4) less_imp_le by blast
  have "of_int m * quantum a < of_int k * quantum a" using assms(4) m k by simp
  then have "m < k" by (simp add: mult_less_cancel_right_pos)
  then have "of_int m + 1 \<le> (of_int k :: real)" by linarith
  then have "(of_int m + 1) * quantum a \<le> of_int k * quantum a"
    by (intro mult_right_mono) simp_all
  then show ?thesis using m k by (simp add: algebra_simps)
qed

lemma double_quotient_below_one:
  assumes "is_double a" "is_double b" "0 < a" "a < b"
  shows "0 \<le> binary64 (a / b) \<and> binary64 (a / b) < 1"
proof
  show "0 \<le> binary64 (a / b)" using assms by (intro binary64_nonneg) simp
  have "a / b < 1 - 1 / 2 ^ 54"
  proof (cases "a < b / 2")
    case True
    then have "a / b < 1 / 2" using assms by (simp add: field_simps)
    moreover have "(1 / 2 :: real) \<le> 1 - 1 / 2 ^ 54" by simp
    ultimately show ?thesis by linarith
  next
    case False
    have e: "exponent b - 1 \<le> exponent a"
    proof (cases "exponent b = - 1022")
      case True then show ?thesis using exponent_lower [of a] by simp
    next
      case False
      then have "2 powr of_int (exponent b) \<le> \<bar>b\<bar>"
        using assms exponent_lower [of b] by (intro exponent_normal) simp_all
      then have "2 powr of_int (exponent b - 1) \<le> \<bar>a\<bar>"
        using \<open>\<not> a < b / 2\<close> assms by (simp add: powr_diff)
      then have "of_int (exponent b - 1) \<le> log 2 \<bar>a\<bar>"
        using assms by (simp add: le_log_iff)
      then have "exponent b - 1 \<le> \<lfloor>log 2 \<bar>a\<bar>\<rfloor>" by (simp add: le_floor_iff)
      then show ?thesis by (simp add: exponent_def)
    qed
    have "b < 2 powr of_int (exponent b + 1)" using exponent_upper [of b] assms by simp
    also have "\<dots> = 2 ^ 54 * 2 powr of_int (exponent b - 1 - 52)"
      by (simp add: powr_add powr_diff powr_realpow [of 2 52, simplified])
    also have "\<dots> \<le> 2 ^ 54 * quantum a"
      unfolding quantum_def using e by (intro mult_left_mono powr_mono) simp_all
    finally have "b / 2 ^ 54 < quantum a" by (simp add: field_simps)
    then have "a < b - b / 2 ^ 54" using double_gap [OF assms] by linarith
    then show ?thesis using assms by (simp add: field_simps)
  qed
  then show "binary64 (a / b) < 1" using assms by (intro binary64_less_one) simp_all
qed

lemma binary64_exact:
  assumes "x * 2 ^ n = of_int m" "\<bar>x\<bar> * 2 ^ n < 2 ^ 53" "n \<le> 1074"
  shows "binary64 x = x"
proof (cases "x = 0")
  case True then show ?thesis by (simp add: binary64_def)
next
  case False
  have "\<bar>x\<bar> < 2 ^ 53 / 2 ^ n" using assms(2) by (simp add: field_simps)
  also have "\<dots> = 2 powr of_int (53 - int n)"
    using powr_realpow [of 2 n] powr_realpow [of 2 53] by (simp add: powr_diff)
  finally have "log 2 \<bar>x\<bar> < of_int (53 - int n)"
    using False by (subst log_less_iff) simp_all
  then have "\<lfloor>log 2 \<bar>x\<bar>\<rfloor> < 53 - int n" by (simp only: floor_less_iff)
  then have "exponent x \<le> 52 - int n" using assms(3) by (simp add: exponent_def)
  then obtain j :: nat where j: "52 - int n = exponent x + int j"
    using zle_iff_zadd by blast
  have "real_of_int (exponent x - 52) = - real (n + j)" using j by simp
  then have q: "quantum x = 1 / 2 ^ (n + j)"
    by (simp only: quantum_def powr_minus powr_realpow [of 2, simplified] inverse_eq_divide)
  have "x / quantum x = x * 2 ^ n * 2 ^ j" by (simp add: q power_add)
  also have "\<dots> = of_int (m * 2 ^ j)" by (simp add: assms(1))
  finally have "round_half_even (x / quantum x) = m * 2 ^ j"
    by (simp only: round_half_even_of_int)
  moreover have "of_int (m * 2 ^ j) * quantum x = x"
    using assms(1) [symmetric] by (simp add: q power_add)
  ultimately show ?thesis using False by (simp add: binary64_def)
qed

text \<open>In the normal range the double is within one part in \<open>2\<^sup>5\<^sup>3\<close> of the real.\<close>

lemma binary64_relative:
  assumes "2 powr (- 1022) \<le> \<bar>x\<bar>"
  shows "\<bar>binary64 x - x\<bar> \<le> \<bar>x\<bar> / 2 ^ 53"
proof -
  have x: "0 < \<bar>x\<bar>" using assms powr_gt_zero [of 2 "- 1022"] by linarith
  then have "real_of_int (- 1022) \<le> log 2 \<bar>x\<bar>" using assms by (simp add: le_log_iff)
  then have "- 1022 \<le> \<lfloor>log 2 \<bar>x\<bar>\<rfloor>" by (simp only: le_floor_iff)
  then have e: "exponent x = \<lfloor>log 2 \<bar>x\<bar>\<rfloor>" by (simp add: exponent_def)
  have "2 powr of_int (exponent x) \<le> \<bar>x\<bar>"
    unfolding e using x floor_log_eq_powr_iff [of "\<bar>x\<bar>" 2 "\<lfloor>log 2 \<bar>x\<bar>\<rfloor>"] by simp
  moreover have "quantum x = 2 powr of_int (exponent x) / 2 ^ 52"
    using powr_realpow [of 2 52] by (simp add: quantum_def powr_diff)
  ultimately have "quantum x / 2 \<le> \<bar>x\<bar> / 2 ^ 53" by simp
  then show ?thesis using binary64_error [of x] by linarith
qed

lemma least_normal_small: "2 powr (- 1022) \<le> (1 / 2 ^ 32 :: real)"
proof -
  have "(2::real) powr (- 1022) \<le> 2 powr (- 32)" by (intro powr_mono) simp_all
  also have "\<dots> = 1 / 2 ^ 32"
    using powr_realpow [of 2 32] by (simp add: powr_minus inverse_eq_divide)
  finally show ?thesis .
qed

text \<open>The literals of the program and the doubles of the examples.\<close>

lemma double_04: "binary64 (4 / 10) = 3602879701896397 / 2 ^ 53"
  by (subst binary64_eval [where n = 54]) (simp_all add: round_half_even_def)

lemma double_06: "binary64 (6 / 10) = 5404319552844595 / 2 ^ 53"
  by (subst binary64_eval [where n = 53]) (simp_all add: round_half_even_def)

lemma double_001: "binary64 (1 / 100) = 5764607523034235 / 2 ^ 59"
  by (subst binary64_eval [where n = 59]) (simp_all add: round_half_even_def)

lemma binary64_numeral:
  "numeral k < (2 ^ 53 :: int) \<Longrightarrow> binary64 (numeral k) = numeral k"
  "numeral k < (2 ^ 53 :: int) \<Longrightarrow> binary64 (- numeral k) = - numeral k"
  "binary64 1 = 1"
proof -
  have "\<bar>m\<bar> < 2 ^ 53 \<Longrightarrow> binary64 (of_int m) = of_int m" for m :: int
    using binary64_exact [where x = "of_int m" and n = 0 and m = m]
      of_int_less_iff [where ?'a = real, of "\<bar>m\<bar>" "2 ^ 53"] by simp
  from this [of "numeral k"] this [of "- numeral k"] this [of 1]
  show "numeral k < (2 ^ 53 :: int) \<Longrightarrow> binary64 (numeral k) = numeral k"
    "numeral k < (2 ^ 53 :: int) \<Longrightarrow> binary64 (- numeral k) = - numeral k"
    "binary64 1 = 1"
    by simp_all
qed

lemma binary64_quarters:
  "binary64 (1 / 4) = 1 / 4" "binary64 (1 / 2) = 1 / 2" "binary64 (3 / 4) = 3 / 4"
  using binary64_exact [where x = "1 / 4" and n = 2 and m = 1]
    binary64_exact [where x = "1 / 2" and n = 1 and m = 1]
    binary64_exact [where x = "3 / 4" and n = 2 and m = 3]
  by simp_all

lemma spacing_of_3: "spacing_of 3 = 1 / 4"
  by (simp add: spacing_of_def L_def double_div_def binary64_quarters)

lemma double_sixth: "binary64 (1 / 6) = 6004799503160661 / 2 ^ 55"
  by (subst binary64_eval [where n = 55]) (simp_all add: round_half_even_def)

lemma spacing_of_5: "spacing_of 5 = 6004799503160661 / 2 ^ 55"
  by (simp add: spacing_of_def L_def double_div_def double_sixth)

lemma positions_5:
  "position_of (6004799503160661 / 2 ^ 55) 0 = 6004799503160661 / 2 ^ 55"
  "position_of (6004799503160661 / 2 ^ 55) 1 = 6004799503160661 / 2 ^ 54"
  "position_of (6004799503160661 / 2 ^ 55) 2 = 1 / 2"
  "position_of (6004799503160661 / 2 ^ 55) 3 = 6004799503160661 / 2 ^ 53"
  "position_of (6004799503160661 / 2 ^ 55) 4 = 7505999378950826 / 2 ^ 53"
proof -
  show "position_of (6004799503160661 / 2 ^ 55) 0 = 6004799503160661 / 2 ^ 55"
    unfolding position_of_def double_mult_def
    by (subst binary64_eval [where n = 55]) (simp_all add: round_half_even_def)
  show "position_of (6004799503160661 / 2 ^ 55) 1 = 6004799503160661 / 2 ^ 54"
    unfolding position_of_def double_mult_def
    by (subst binary64_eval [where n = 54]) (simp_all add: round_half_even_def)
  show "position_of (6004799503160661 / 2 ^ 55) 2 = 1 / 2"
    unfolding position_of_def double_mult_def
    by (subst binary64_eval [where n = 54]) (simp_all add: round_half_even_def)
  show "position_of (6004799503160661 / 2 ^ 55) 3 = 6004799503160661 / 2 ^ 53"
    unfolding position_of_def double_mult_def
    by (subst binary64_eval [where n = 53]) (simp_all add: round_half_even_def)
  show "position_of (6004799503160661 / 2 ^ 55) 4 = 7505999378950826 / 2 ^ 53"
    unfolding position_of_def double_mult_def
    by (subst binary64_eval [where n = 53]) (simp_all add: round_half_even_def)
qed

lemma hot_band_5:
  "hot_band (6004799503160661 / 2 ^ 55) 0 = 0"
  "hot_band (6004799503160661 / 2 ^ 55) 1 = 0"
  "hot_band (6004799503160661 / 2 ^ 55) 2 = 100"
  "hot_band (6004799503160661 / 2 ^ 55) 3 = 0"
  "hot_band (6004799503160661 / 2 ^ 55) 4 = 0"
  unfolding hot_band_def Let_def positions_5 double_04 double_06 by simp_all

lemma double_fifth: "binary64 (1 / 5) = 3602879701896397 / 2 ^ 54"
  by (subst binary64_eval [where n = 55]) (simp_all add: round_half_even_def)

lemma spacing_of_4: "spacing_of 4 = 3602879701896397 / 2 ^ 54"
  by (simp add: spacing_of_def L_def double_div_def double_fifth)


lemma positions_3:
  "position_of (1 / 4) 0 = 1 / 4" "position_of (1 / 4) 1 = 1 / 2" "position_of (1 / 4) 2 = 3 / 4"
  by (simp_all add: position_of_def double_mult_def binary64_quarters)

lemma hot_band_3:
  "hot_band (1 / 4) 0 = 0" "hot_band (1 / 4) 1 = 100" "hot_band (1 / 4) 2 = 0"
  unfolding hot_band_def Let_def positions_3 double_04 double_06 by simp_all

subsection \<open>Operator assembly\<close>

declare interior_loop.simps [simp del] initial_loop.simps [simp del]

lemma agrees_cong:
  "agrees n M f \<Longrightarrow> (\<And>i j. i < n \<Longrightarrow> j < n \<Longrightarrow> f i j = g i j) \<Longrightarrow> agrees n M g"
  by (simp add: agrees_def)

lemma agrees_Zero: "agrees n (Zero (int n) (int n)) (\<lambda>i j. 0)"
  by (simp add: agrees_def Zero_def)

lemma agrees_cols: "agrees n M f \<Longrightarrow> 0 < n \<Longrightarrow> cols M = int n"
  by (cases M) (auto simp: agrees_def cols_def)

lemma set_coeff_agrees:
  assumes "agrees n M f" "0 \<le> i" "i < int n" "0 \<le> j" "j < int n"
  shows "\<exists>M'. set_coeff M i j v = Inr M' \<and>
           agrees n M' (\<lambda>r c. if r = nat i \<and> c = nat j then v else f r c)"
proof -
  have n: "0 < n" using assms by linarith
  have c: "cols M = int n" using assms(1) n by (rule agrees_cols)
  have r: "rows M = int n" using assms(1) by (simp add: agrees_def rows_def)
  let ?M' = "M[nat i := (M ! nat i)[nat j := v]]"
  have "set_coeff M i j v = Inr ?M'"
    using assms c r by (simp add: set_coeff_def)
  moreover have "agrees n ?M' (\<lambda>r c. if r = nat i \<and> c = nat j then v else f r c)"
    using assms by (auto simp: agrees_def nth_list_update)
  ultimately show ?thesis by blast
qed

lemma three_writes:
  assumes M: "agrees n M f" and k: "1 \<le> k" "k + 1 < int n"
  shows "\<exists>M'. agrees n M' (row3 (nat k) a b c f) \<and>
           (\<forall>g. bind_err (set_coeff M k (k - 1) a) (\<lambda>M.
                bind_err (set_coeff M k k b) (\<lambda>M.
                bind_err (set_coeff M k (k + 1) c) g)) = g M')"
proof -
  obtain M1 where 1: "set_coeff M k (k - 1) a = Inr M1"
    and a1: "agrees n M1 (\<lambda>r c. if r = nat k \<and> c = nat (k - 1) then a else f r c)"
    using set_coeff_agrees [OF M, of k "k - 1" a] k by auto
  obtain M2 where 2: "set_coeff M1 k k b = Inr M2"
    and a2: "agrees n M2 (\<lambda>r c. if r = nat k \<and> c = nat k then b
               else if r = nat k \<and> c = nat (k - 1) then a else f r c)"
    using set_coeff_agrees [OF a1, of k k b] k by auto
  obtain M3 where 3: "set_coeff M2 k (k + 1) c = Inr M3"
    and a3: "agrees n M3 (\<lambda>r c'. if r = nat k \<and> c' = nat (k + 1) then c
               else if r = nat k \<and> c' = nat k then b
               else if r = nat k \<and> c' = nat (k - 1) then a else f r c')"
    using set_coeff_agrees [OF a2, of k "k + 1" c] k by auto
  have "agrees n M3 (row3 (nat k) a b c f)"
    by (rule agrees_cong [OF a3]) (use k in \<open>auto simp: row3_def nat_diff_distrib nat_add_distrib\<close>)
  then show ?thesis using 1 2 3 by (auto simp: bind_err_def)
qed

lemma interior_row_agrees:
  assumes A: "agrees n A fA" and B: "agrees n B fB" and k: "1 \<le> k" "k + 1 < int n"
  shows "\<exists>A' B'. interior_row k (A, B) = Inr (A', B') \<and>
           agrees n A' (row3 (nat k) (1 / 6) (4 / 6) (1 / 6) fA) \<and>
           agrees n B' (row3 (nat k) 1 (- 2) 1 fB)"
proof -
  obtain A' where aA: "agrees n A' (row3 (nat k) (1 / 6) (4 / 6) (1 / 6) fA)"
    and A': "\<And>g :: matrix \<Rightarrow> error + matrix \<times> matrix. bind_err (set_coeff A k (k - 1) (1 / 6)) (\<lambda>M.
               bind_err (set_coeff M k k (4 / 6)) (\<lambda>M.
               bind_err (set_coeff M k (k + 1) (1 / 6)) g)) = g A'"
    using three_writes [OF A k] by blast
  obtain B' where aB: "agrees n B' (row3 (nat k) 1 (- 2) 1 fB)"
    and B': "\<And>g :: matrix \<Rightarrow> error + matrix \<times> matrix. bind_err (set_coeff B k (k - 1) 1) (\<lambda>M.
               bind_err (set_coeff M k k (- 2)) (\<lambda>M.
               bind_err (set_coeff M k (k + 1) 1) g)) = g B'"
    using three_writes [OF B k] by blast
  have "interior_row k (A, B) = Inr (A', B')"
    by (simp only: interior_row_def prod.case A' B')
  then show ?thesis using aA aB by blast
qed

lemma interior_loop_agrees:
  assumes "agrees n A fA" "agrees n B fB" "1 \<le> k"
  shows "\<exists>A' B'. interior_loop (int n) k (A, B) = Inr (A', B') \<and>
           agrees n A' (band (nat k) n (1 / 6) (4 / 6) fA) \<and>
           agrees n B' (band (nat k) n 1 (- 2) fB)"
  using assms
proof (induction "nat (int n - 1 - k)" arbitrary: k A B fA fB)
  case 0
  then have "\<not> k < int n - 1" by simp
  then have "interior_loop (int n) k (A, B) = Inr (A, B)"
    by (subst interior_loop.simps) simp
  moreover have "agrees n A (band (nat k) n (1 / 6) (4 / 6) fA)"
    by (rule agrees_cong [OF "0.prems"(1)]) (use 0 in \<open>auto simp: band_def\<close>)
  moreover have "agrees n B (band (nat k) n 1 (- 2) fB)"
    by (rule agrees_cong [OF "0.prems"(2)]) (use 0 in \<open>auto simp: band_def\<close>)
  ultimately show ?case by blast
next
  case (Suc m)
  then have k: "k + 1 < int n" by linarith
  obtain A1 B1 where row: "interior_row k (A, B) = Inr (A1, B1)"
    and A1: "agrees n A1 (row3 (nat k) (1 / 6) (4 / 6) (1 / 6) fA)"
    and B1: "agrees n B1 (row3 (nat k) 1 (- 2) 1 fB)"
    using interior_row_agrees [OF Suc.prems(1,2,3) k] by blast
  have m: "m = nat (int n - 1 - (k + 1))" using Suc.hyps(2) by linarith
  obtain A' B' where loop: "interior_loop (int n) (k + 1) (A1, B1) = Inr (A', B')"
    and A': "agrees n A' (band (nat (k + 1)) n (1 / 6) (4 / 6) (row3 (nat k) (1 / 6) (4 / 6) (1 / 6) fA))"
    and B': "agrees n B' (band (nat (k + 1)) n 1 (- 2) (row3 (nat k) 1 (- 2) 1 fB))"
    using Suc.hyps(1) [OF m A1 B1] Suc.prems(3) by auto
  have "interior_loop (int n) k (A, B) = Inr (A', B')"
    using k row loop by (subst interior_loop.simps) simp
  moreover have "agrees n A' (band (nat k) n (1 / 6) (4 / 6) fA)"
    by (rule agrees_cong [OF A'])
       (use k Suc.prems(3) in \<open>auto simp: band_def row3_def nat_add_distrib\<close>)
  moreover have "agrees n B' (band (nat k) n 1 (- 2) fB)"
    by (rule agrees_cong [OF B'])
       (use k Suc.prems(3) in \<open>auto simp: band_def row3_def nat_add_distrib\<close>)
  ultimately show ?case by blast
qed

lemma two_writes:
  assumes M: "agrees n M f" and k: "0 \<le> k" "k < int n" "0 \<le> j1" "j1 < int n" "0 \<le> j2" "j2 < int n"
  shows "\<exists>M'. agrees n M' (pair2 (nat k) (nat j1) v1 (nat j2) v2 f) \<and>
           (\<forall>g. bind_err (set_coeff M k j1 v1) (\<lambda>M. bind_err (set_coeff M k j2 v2) g) = g M')"
proof -
  obtain M1 where 1: "set_coeff M k j1 v1 = Inr M1"
    and a1: "agrees n M1 (\<lambda>r c. if r = nat k \<and> c = nat j1 then v1 else f r c)"
    using set_coeff_agrees [OF M, of k j1 v1] k by auto
  obtain M2 where 2: "set_coeff M1 k j2 v2 = Inr M2"
    and a2: "agrees n M2 (\<lambda>r c. if r = nat k \<and> c = nat j2 then v2
               else if r = nat k \<and> c = nat j1 then v1 else f r c)"
    using set_coeff_agrees [OF a1, of k j2 v2] k by auto
  have "agrees n M2 (pair2 (nat k) (nat j1) v1 (nat j2) v2 f)"
    by (rule agrees_cong [OF a2]) (simp add: pair2_def)
  then show ?thesis using 1 2 by (auto simp: bind_err_def)
qed

lemma boundary_rows_agrees:
  assumes A: "agrees n A fA" and B: "agrees n B fB" and n: "2 \<le> n"
  shows "\<exists>A' B'. boundary_rows (int n) (A, B) = Inr (A', B') \<and>
           agrees n A' (pair2 (n - 1) (n - 2) (2 / 6) (n - 1) (4 / 6) (pair2 0 0 (4 / 6) 1 (2 / 6) fA)) \<and>
           agrees n B' (pair2 (n - 1) (n - 2) 2 (n - 1) (- 2) (pair2 0 0 (- 2) 1 2 fB))"
proof -
  obtain A1 where aA1: "agrees n A1 (pair2 0 0 (4 / 6) 1 (2 / 6) fA)"
    and A1: "\<And>g :: matrix \<Rightarrow> error + matrix \<times> matrix.
       bind_err (set_coeff A 0 0 (4 / 6)) (\<lambda>M. bind_err (set_coeff M 0 1 (2 / 6)) g) = g A1"
    using two_writes [OF A, of 0 0 1 "4 / 6" "2 / 6"] n by auto
  obtain B1 where aB1: "agrees n B1 (pair2 0 0 (- 2) 1 2 fB)"
    and B1: "\<And>g :: matrix \<Rightarrow> error + matrix \<times> matrix.
       bind_err (set_coeff B 0 0 (- 2)) (\<lambda>M. bind_err (set_coeff M 0 1 2) g) = g B1"
    using two_writes [OF B, of 0 0 1 "- 2" 2] n by auto
  have idx: "nat (int n - 1) = n - 1" "nat (int n - 2) = n - 2" by simp_all
  obtain A2 where aA2: "agrees n A2 (pair2 (n - 1) (n - 2) (2 / 6) (n - 1) (4 / 6) (pair2 0 0 (4 / 6) 1 (2 / 6) fA))"
    and A2: "\<And>g :: matrix \<Rightarrow> error + matrix \<times> matrix.
       bind_err (set_coeff A1 (int n - 1) (int n - 2) (2 / 6))
         (\<lambda>M. bind_err (set_coeff M (int n - 1) (int n - 1) (4 / 6)) g) = g A2"
    using two_writes [OF aA1, of "int n - 1" "int n - 2" "int n - 1" "2 / 6" "4 / 6"] n
    unfolding idx by auto
  obtain B2 where aB2: "agrees n B2 (pair2 (n - 1) (n - 2) 2 (n - 1) (- 2) (pair2 0 0 (- 2) 1 2 fB))"
    and B2: "\<And>g :: matrix \<Rightarrow> error + matrix \<times> matrix.
       bind_err (set_coeff B1 (int n - 1) (int n - 2) 2)
         (\<lambda>M. bind_err (set_coeff M (int n - 1) (int n - 1) (- 2)) g) = g B2"
    using two_writes [OF aB1, of "int n - 1" "int n - 2" "int n - 1" 2 "- 2"] n
    unfolding idx by auto
  have "boundary_rows (int n) (A, B) = Inr (A2, B2)"
    by (simp only: boundary_rows_def prod.case A1 B1 A2 B2)
  then show ?thesis using aA2 aB2 by blast
qed

lemma averaging_pointwise:
  assumes "2 \<le> n" "i < n" "j < n"
  shows "pair2 (n - 1) (n - 2) (2 / 6) (n - 1) (4 / 6)
           (pair2 0 0 (4 / 6) 1 (2 / 6) (band 1 n (1 / 6) (4 / 6) (\<lambda>i j. 0))) i j
         = spec_averaging_entry n i j"
proof -
  consider "i = 0" | "i \<noteq> 0" "i + 1 = n" | "1 \<le> i" "i + 2 \<le> n"
    using assms by linarith
  then show ?thesis
  proof cases
    case 1
    then show ?thesis using assms by (simp add: pair2_def band_def spec_averaging_entry_def)
  next
    case 2
    obtain m where m: "n = Suc (Suc m)"
      using assms(1) by (metis Suc_le_D numeral_2_eq_2 Suc_le_mono)
    then have i: "i = Suc m" using 2 by simp
    show ?thesis using assms(3) unfolding m i
      by (simp add: pair2_def band_def spec_averaging_entry_def)
  next
    case 3
    then have "i \<noteq> 0" "i \<noteq> n - 1" "i + 1 < n" by simp_all
    then show ?thesis using 3 by (simp add: pair2_def band_def spec_averaging_entry_def)
  qed
qed

lemma diffusion_pointwise:
  assumes "2 \<le> n" "i < n" "j < n"
  shows "pair2 (n - 1) (n - 2) 2 (n - 1) (- 2)
           (pair2 0 0 (- 2) 1 2 (band 1 n 1 (- 2) (\<lambda>i j. 0))) i j
         = spec_diffusion_entry n i j"
proof -
  consider "i = 0" | "i \<noteq> 0" "i + 1 = n" | "1 \<le> i" "i + 2 \<le> n"
    using assms by linarith
  then show ?thesis
  proof cases
    case 1
    then show ?thesis using assms by (simp add: pair2_def band_def spec_diffusion_entry_def)
  next
    case 2
    obtain m where m: "n = Suc (Suc m)"
      using assms(1) by (metis Suc_le_D numeral_2_eq_2 Suc_le_mono)
    then have i: "i = Suc m" using 2 by simp
    show ?thesis using assms(3) unfolding m i
      by (simp add: pair2_def band_def spec_diffusion_entry_def)
  next
    case 3
    then have "i \<noteq> 0" "i \<noteq> n - 1" "i + 1 < n" by simp_all
    then show ?thesis using 3 by (simp add: pair2_def band_def spec_diffusion_entry_def)
  qed
qed

lemma assemble_stencils_agrees:
  assumes n: "2 \<le> n"
  shows "\<exists>A B. assemble_stencils (int n) = Inr (A, B) \<and>
           agrees n A (spec_averaging_entry n) \<and> agrees n B (spec_diffusion_entry n)"
proof -
  obtain A1 B1 where loop: "interior_loop (int n) 1 (Zero (int n) (int n), Zero (int n) (int n)) = Inr (A1, B1)"
    and A1: "agrees n A1 (band 1 n (1 / 6) (4 / 6) (\<lambda>i j. 0))"
    and B1: "agrees n B1 (band 1 n 1 (- 2) (\<lambda>i j. 0))"
    using interior_loop_agrees [OF agrees_Zero agrees_Zero, of 1 n] by auto
  obtain A2 B2 where bnd: "boundary_rows (int n) (A1, B1) = Inr (A2, B2)"
    and A2: "agrees n A2 (pair2 (n - 1) (n - 2) (2 / 6) (n - 1) (4 / 6)
               (pair2 0 0 (4 / 6) 1 (2 / 6) (band 1 n (1 / 6) (4 / 6) (\<lambda>i j. 0))))"
    and B2: "agrees n B2 (pair2 (n - 1) (n - 2) 2 (n - 1) (- 2)
               (pair2 0 0 (- 2) 1 2 (band 1 n 1 (- 2) (\<lambda>i j. 0))))"
    using boundary_rows_agrees [OF A1 B1 n] by blast
  have "assemble_stencils (int n) = Inr (A2, B2)"
    by (simp add: assemble_stencils_def loop bind_err_def bnd)
  moreover have "agrees n A2 (spec_averaging_entry n)"
    by (rule agrees_cong [OF A2]) (rule averaging_pointwise [OF n])
  moreover have "agrees n B2 (spec_diffusion_entry n)"
    by (rule agrees_cong [OF B2]) (rule diffusion_pointwise [OF n])
  ultimately show ?thesis by blast
qed

lemma agrees_mat_div: "agrees n M f \<Longrightarrow> agrees n (mat_div M s) (\<lambda>i j. f i j / s)"
  by (simp add: agrees_def mat_div_def)

lemma agrees_coeff: "agrees n M f \<Longrightarrow> i < n \<Longrightarrow> j < n \<Longrightarrow> coeff M i j = f i j"
  by (simp add: agrees_def coeff_def)

lemma agrees_eq: "agrees n M f \<Longrightarrow> M = map (\<lambda>i. map (f i) [0..<n]) [0..<n]"
  by (auto simp: agrees_def intro!: nth_equalityI)

text \<open>
  Claim C2.  For every cell count of at least two the assembly succeeds and yields
  \<open>n \<times> n\<close> operators: interior rows \<open>1 \<le> i \<le> n - 2\<close> hold \<open>[1/6, 4/6, 1/6]\<close> and,
  before scaling, \<open>[1, -2, 1]\<close> at columns \<open>i - 1, i, i + 1\<close>; row \<open>0\<close> holds \<open>4/6, 2/6\<close>
  and \<open>-2, 2\<close> at columns \<open>0, 1\<close>; row \<open>n - 1\<close> is the mirror image; all other entries
  are zero; and every entry of the diffusion operator is then divided by the square
  of the spacing.
\<close>

theorem operator_assembly_stencils:
  assumes "2 \<le> cell_count"
  shows "\<exists>A B. assemble_stencils cell_count = Inr (A, B)
           \<and> operator_assembly cell_count spacing = Inr (A, mat_div B (spacing * spacing))
           \<and> agrees (nat cell_count) A (spec_averaging_entry (nat cell_count))
           \<and> agrees (nat cell_count) B (spec_diffusion_entry (nat cell_count))
           \<and> agrees (nat cell_count) (mat_div B (spacing * spacing))
                (\<lambda>i j. spec_diffusion_entry (nat cell_count) i j / spacing\<^sup>2)"
proof -
  have n: "2 \<le> nat cell_count" and c: "int (nat cell_count) = cell_count"
    using assms by simp_all
  obtain A B where 1: "assemble_stencils cell_count = Inr (A, B)"
    and A: "agrees (nat cell_count) A (spec_averaging_entry (nat cell_count))"
    and B: "agrees (nat cell_count) B (spec_diffusion_entry (nat cell_count))"
    using assemble_stencils_agrees [OF n] unfolding c by blast
  have "operator_assembly cell_count spacing = Inr (A, mat_div B (spacing * spacing))"
    by (simp add: operator_assembly_def 1 bind_err_def)
  moreover have "agrees (nat cell_count) (mat_div B (spacing * spacing))
                (\<lambda>i j. spec_diffusion_entry (nat cell_count) i j / spacing\<^sup>2)"
    using agrees_mat_div [OF B, of "spacing * spacing"] by (simp add: power2_eq_square)
  ultimately show ?thesis using 1 A B by blast
qed

theorem operator_assembly_stencils_witness:
  "(2::int) \<le> 3
   \<and> assemble_stencils 3 =
       Inr ([[4 / 6, 2 / 6, 0], [1 / 6, 4 / 6, 1 / 6], [0, 2 / 6, 4 / 6]],
            [[- 2, 2, 0], [1, - 2, 1], [0, 2, - 2]])
   \<and> operator_assembly 3 (1 / 4) =
       Inr ([[4 / 6, 2 / 6, 0], [1 / 6, 4 / 6, 1 / 6], [0, 2 / 6, 4 / 6]],
            [[- 32, 32, 0], [16, - 32, 16], [0, 32, - 32]])"
proof -
  have h: "(2::int) \<le> 3" by simp
  obtain A B where 1: "assemble_stencils 3 = Inr (A, B)"
    and 2: "operator_assembly 3 (1 / 4) = Inr (A, mat_div B (1 / 4 * (1 / 4)))"
    and A: "agrees (nat 3) A (spec_averaging_entry (nat 3))"
    and B: "agrees (nat 3) B (spec_diffusion_entry (nat 3))"
    using operator_assembly_stencils [OF h, of "1 / 4"] by blast
  have l: "[0..<3] = [0, 1, 2]" by (simp add: upt_rec)
  have "A = [[4 / 6, 2 / 6, 0], [1 / 6, 4 / 6, 1 / 6], [0, 2 / 6, 4 / 6]]"
    using agrees_eq [OF A] by (simp add: l spec_averaging_entry_def)
  moreover have "B = [[- 2, 2, 0], [1, - 2, 1], [0, 2, - 2]]"
    using agrees_eq [OF B] by (simp add: l spec_diffusion_entry_def)
  ultimately show ?thesis using 1 2 by (simp add: mat_div_def)
qed

text \<open>
  Claim C6.  With a single cell the assembly does not stay inside the \<open>1 \<times> 1\<close>
  matrices: the interior loop is empty, the first boundary closure writes \<open>A(0, 0)\<close>
  and then \<open>A(0, 1)\<close>, which does not exist, and the second closure would write
  \<open>A(0, -1)\<close>.  The claim asks for the opposite; the model reports the first
  out-of-range write.
\<close>

theorem single_cell_assembly_out_of_range:
  "assemble_stencils 1 = Inl (IndexOutOfRange 0 1)
   \<and> operator_assembly 1 dx = Inl (IndexOutOfRange 0 1)
   \<and> set_coeff (Zero 1 1) 0 1 v = Inl (IndexOutOfRange 0 1)
   \<and> set_coeff (Zero 1 1) (1 - 1) (1 - 2) v = Inl (IndexOutOfRange 0 (- 1))"
proof -
  have loop: "interior_loop 1 1 AB = Inr AB" for AB
    by (subst interior_loop.simps) simp
  have 1: "assemble_stencils 1 = Inl (IndexOutOfRange 0 1)"
    by (simp add: assemble_stencils_def loop boundary_rows_def bind_err_def set_coeff_def
        Zero_def rows_def cols_def)
  then show ?thesis
    by (simp add: operator_assembly_def bind_err_def set_coeff_def Zero_def rows_def cols_def)
qed

subsection \<open>Grid and initial state\<close>

lemma initial_cell_Inr:
  assumes "0 \<le> i" "i < int (length T)"
  shows "initial_cell dx i T = Inr (T[nat i := hot_band dx (nat i)])"
proof -
  have "real_of_int (i + 1) = real (nat i) + 1" using assms by simp
  then show ?thesis using assms
    by (simp add: initial_cell_def hot_band_def position_of_def set_elem_def Let_def)
qed

lemma initial_loop_spec:
  assumes "length T = n" "0 \<le> i" "i \<le> int n"
  shows "\<exists>T'. initial_loop dx (int n) i T = Inr T' \<and> length T' = n \<and>
           (\<forall>k<n. T' ! k = (if nat i \<le> k then hot_band dx k else T ! k))"
  using assms
proof (induction "nat (int n - i)" arbitrary: i T)
  case 0
  then have "\<not> i < int n" by simp
  then have "initial_loop dx (int n) i T = Inr T"
    by (subst initial_loop.simps) simp
  then show ?case using 0 by auto
next
  case (Suc m)
  then have i: "i < int n" by linarith
  have cell: "initial_cell dx i T = Inr (T[nat i := hot_band dx (nat i)])"
    using initial_cell_Inr [of i T dx] Suc.prems i by simp
  have m: "m = nat (int n - (i + 1))" using Suc.hyps(2) by linarith
  obtain T' where loop: "initial_loop dx (int n) (i + 1) (T[nat i := hot_band dx (nat i)]) = Inr T'"
    and len: "length T' = n"
    and T': "\<forall>k<n. T' ! k = (if nat (i + 1) \<le> k then hot_band dx k
                              else T[nat i := hot_band dx (nat i)] ! k)"
    using Suc.hyps(1) [OF m, of "T[nat i := hot_band dx (nat i)]"] Suc.prems i by auto
  have "initial_loop dx (int n) i T = Inr T'"
    using i cell loop by (subst initial_loop.simps) simp
  moreover have "\<forall>k<n. T' ! k = (if nat i \<le> k then hot_band dx k else T ! k)"
  proof (intro allI impI)
    fix k assume k: "k < n"
    show "T' ! k = (if nat i \<le> k then hot_band dx k else T ! k)"
    proof (cases "k = nat i")
      case True
      then show ?thesis using T' k Suc.prems i by (simp add: nat_add_distrib)
    next
      case False
      then show ?thesis using T' k Suc.prems i by (auto simp: nat_add_distrib)
    qed
  qed
  ultimately show ?case using len by blast
qed





subsection \<open>The time-stepping loop\<close>

declare time_loop.simps [simp del]

lemma time_step_simps [simp]:
  "T_current (time_step solve solver RHS N t s) = advance solve solver RHS (T_current s)"
  "T_history (time_step solve solver RHS N t s)
     = T_history s @ [advance solve solver RHS (T_current s)]"
  by (simp_all add: time_step_def advance_def Let_def)

lemma time_step_log:
  "\<exists>evs. events (time_step solve solver RHS N t s) = events s @ evs
         \<and> (\<forall>e \<in> set evs. loop_event solver e)
         \<and> length (filter is_Solve evs) = 1"
  by (simp add: time_step_def Let_def)

lemma time_loop_done: "\<not> t < N \<Longrightarrow> time_loop solve solver RHS N t s = s"
  by (subst time_loop.simps) simp

lemma time_loop_step:
  "t < N \<Longrightarrow> time_loop solve solver RHS N t s
     = time_loop solve solver RHS N (t + 1) (time_step solve solver RHS N t s)"
  by (subst time_loop.simps) simp

lemma iterates_shift:
  "f x # map (\<lambda>k. (f ^^ Suc k) (f x)) [0..<m] = map (\<lambda>k. (f ^^ Suc k) x) [0..<Suc m]"
proof -
  have "map (\<lambda>k. (f ^^ Suc k) x) [0..<Suc m]
        = (f ^^ Suc 0) x # map (\<lambda>k. (f ^^ Suc k) x) (map Suc [0..<m])"
    by (simp only: upt_conv_Cons [OF zero_less_Suc] list.map map_Suc_upt)
  also have "\<dots> = f x # map (\<lambda>k. (f ^^ Suc k) (f x)) [0..<m]"
    by (simp add: funpow_swap1 comp_def)
  finally show ?thesis by simp
qed

lemma time_loop_result:
  "T_current (time_loop solve solver RHS N t s)
     = (advance solve solver RHS ^^ nat (N - t)) (T_current s)
   \<and> T_history (time_loop solve solver RHS N t s)
     = T_history s @ map (\<lambda>k. (advance solve solver RHS ^^ Suc k) (T_current s)) [0..<nat (N - t)]"
proof (induction "nat (N - t)" arbitrary: t s)
  case 0
  then have "\<not> t < N" by simp
  then show ?case using 0 by (simp add: time_loop_done)
next
  case (Suc m)
  then have t: "t < N" by linarith
  have m: "m = nat (N - (t + 1))" using Suc.hyps(2) by linarith
  have S: "nat (N - t) = Suc m" using Suc.hyps(2) by simp
  note IH = Suc.hyps(1) [OF m, of "time_step solve solver RHS N t s"]
  show ?case
    unfolding time_loop_step [OF t] S
    using IH iterates_shift [of "advance solve solver RHS" "T_current s" m]
    by (simp add: m [symmetric] funpow_swap1 del: upt_Suc)
qed

lemma time_loop_log:
  "\<exists>evs. events (time_loop solve solver RHS N t s) = events s @ evs
         \<and> (\<forall>e \<in> set evs. loop_event solver e)
         \<and> length (filter is_Solve evs) = nat (N - t)"
proof (induction "nat (N - t)" arbitrary: t s)
  case 0
  then have "\<not> t < N" by simp
  then show ?case using 0 by (simp add: time_loop_done)
next
  case (Suc m)
  then have t: "t < N" by linarith
  have m: "m = nat (N - (t + 1))" using Suc.hyps(2) by linarith
  obtain e1 where 1: "events (time_step solve solver RHS N t s) = events s @ e1"
    and l1: "\<forall>e \<in> set e1. loop_event solver e" and c1: "length (filter is_Solve e1) = 1"
    using time_step_log [of solve solver RHS N t s] by blast
  obtain e2 where 2: "events (time_loop solve solver RHS N (t + 1) (time_step solve solver RHS N t s))
       = events (time_step solve solver RHS N t s) @ e2"
    and l2: "\<forall>e \<in> set e2. loop_event solver e"
    and c2: "length (filter is_Solve e2) = nat (N - (t + 1))"
    using Suc.hyps(1) [OF m] by blast
  have "events (time_loop solve solver RHS N t s) = events s @ (e1 @ e2)"
    unfolding time_loop_step [OF t] using 1 2 by simp
  moreover have "\<forall>e \<in> set (e1 @ e2). loop_event solver e" using l1 l2 by auto
  moreover have "length (filter is_Solve (e1 @ e2)) = nat (N - t)"
    using c1 c2 t by simp
  ultimately show ?case by blast
qed

subsection \<open>The simulation in closed form\<close>

lemma agrees_averaging_operator: "agrees n (averaging_operator n) (spec_averaging_entry n)"
  by (simp add: agrees_def averaging_operator_def)

lemma agrees_diffusion_operator:
  "agrees n (diffusion_operator n dx) (\<lambda>i j. spec_diffusion_entry n i j / (dx * dx))"
  by (simp add: agrees_def diffusion_operator_def)

lemma agrees_unique: "agrees n M f \<Longrightarrow> agrees n N f \<Longrightarrow> M = N"
  using agrees_eq by metis

lemma operator_assembly_eq:
  assumes "2 \<le> num_x"
  shows "operator_assembly num_x dx
         = Inr (averaging_operator (nat num_x), diffusion_operator (nat num_x) dx)"
proof -
  have n: "2 \<le> nat num_x" and c: "int (nat num_x) = num_x" using assms by simp_all
  obtain A B where 1: "assemble_stencils num_x = Inr (A, B)"
    and A: "agrees (nat num_x) A (spec_averaging_entry (nat num_x))"
    and B: "agrees (nat num_x) B (spec_diffusion_entry (nat num_x))"
    using assemble_stencils_agrees [OF n] unfolding c by blast
  have "A = averaging_operator (nat num_x)"
    using A agrees_averaging_operator by (rule agrees_unique)
  moreover have "mat_div B (dx * dx) = diffusion_operator (nat num_x) dx"
    using agrees_mat_div [OF B] agrees_diffusion_operator by (rule agrees_unique)
  ultimately show ?thesis by (simp add: operator_assembly_def 1 bind_err_def)
qed

lemma initial_state_eq:
  assumes "0 \<le> num_x" "length fresh = nat num_x"
  shows "initial_state num_x dx fresh = Inr (initial_profile (nat num_x) dx)"
proof -
  have c: "int (nat num_x) = num_x" using assms by simp
  obtain T where 1: "initial_loop dx num_x 0 fresh = Inr T"
    and len: "length T = nat num_x"
    and T: "\<forall>k<nat num_x. T ! k = hot_band dx k"
    using initial_loop_spec [OF assms(2), of 0 dx] assms(1) unfolding c by auto
  have "T = initial_profile (nat num_x) dx"
    using len T by (auto simp: initial_profile_def intro!: nth_equalityI)
  then show ?thesis using 1 by (simp add: initial_state_def)
qed

lemma grid_spacing_eq:
  "num_x + 1 \<le> INT_MAX \<Longrightarrow> grid_spacing num_x = Inr (spacing_of num_x)"
  by (simp add: grid_spacing_def spacing_of_def add.commute)

lemma simulate_eq:
  assumes "2 \<le> num_x" "num_x + 1 \<le> INT_MAX" "step_count total_time dt = Inr N"
  shows "simulate factorize solve num_x alpha dt total_time output_prefix =
     (let dx = spacing_of num_x;
          T0 = initial_profile (nat num_x) dx;
          (LHS, RHS) = build_system (averaging_operator (nat num_x))
                         (diffusion_operator (nat num_x) dx) alpha dt;
          s = time_loop solve (factorize LHS) RHS N 0
                \<lparr>T_current = T0, T_history = [T0],
                 events = [Summary num_x alpha dx dt total_time N output_prefix,
                           CourantNumber (courant_ratio alpha dt dx)]
                          @ (if courant_ratio alpha dt dx > 5 / 10 then [CourantWarning] else [])
                          @ [AllocVector num_x, PrintInitial T0, MakeResultsDir,
                             AllocMatrix num_x num_x, AllocMatrix num_x num_x,
                             AllocMatrix num_x num_x, AllocMatrix num_x num_x,
                             AllocMatrix num_x num_x, Factorize LHS, AllocVector num_x]\<rparr>
      in \<lparr>status = Exit 0,
          trace = events s @ [ExportResults output_prefix dx dt (T_history s), Completed],
          history = T_history s\<rparr>)"
proof -
  have i: "initial_state num_x (spacing_of num_x) (fresh_vector num_x)
           = Inr (initial_profile (nat num_x) (spacing_of num_x))"
    using assms(1) by (intro initial_state_eq) (simp_all add: fresh_vector_def)
  show ?thesis
    by (simp add: simulate_def grid_spacing_eq [OF assms(2)] assms(3) i courant_ratio_def
      operator_assembly_eq [OF assms(1)] Let_def split: prod.splits)
qed

lemma simulate_run:
  assumes "2 \<le> num_x" "num_x + 1 \<le> INT_MAX" "step_count total_time dt = Inr N"
    and "system_of num_x alpha dt = (LHS, RHS)"
  shows "status (simulate factorize solve num_x alpha dt total_time output_prefix) = Exit 0"
    and "history (simulate factorize solve num_x alpha dt total_time output_prefix)
         = initial_profile (nat num_x) (spacing_of num_x)
           # map (\<lambda>k. (advance solve (factorize LHS) RHS ^^ Suc k)
                        (initial_profile (nat num_x) (spacing_of num_x))) [0..<nat N]"
    and "\<exists>evs. trace (simulate factorize solve num_x alpha dt total_time output_prefix)
           = preamble num_x alpha dt total_time N output_prefix LHS @ evs
             @ [ExportResults output_prefix (spacing_of num_x) dt
                  (history (simulate factorize solve num_x alpha dt total_time output_prefix)),
                Completed]
           \<and> (\<forall>e \<in> set evs. loop_event (factorize LHS) e)
           \<and> length (filter is_Solve evs) = nat N"
proof -
  let ?first = "initial_profile (nat num_x) (spacing_of num_x)"
  let ?init = "\<lparr>T_current = ?first, T_history = [?first],
              events = preamble num_x alpha dt total_time N output_prefix LHS\<rparr>"
  let ?s = "time_loop solve (factorize LHS) RHS N 0 ?init"
  have sys: "build_system (averaging_operator (nat num_x))
       (diffusion_operator (nat num_x) (spacing_of num_x)) alpha dt = (LHS, RHS)"
    using assms(4) by (simp add: system_of_def)
  have eq: "simulate factorize solve num_x alpha dt total_time output_prefix
     = \<lparr>status = Exit 0,
        trace = events ?s @ [ExportResults output_prefix (spacing_of num_x) dt (T_history ?s),
                            Completed],
        history = T_history ?s\<rparr>"
    unfolding simulate_eq [OF assms(1,2,3)] by (simp add: Let_def sys preamble_def)
  show "status (simulate factorize solve num_x alpha dt total_time output_prefix) = Exit 0"
    by (simp add: eq)
  show "history (simulate factorize solve num_x alpha dt total_time output_prefix)
         = ?first # map (\<lambda>k. (advance solve (factorize LHS) RHS ^^ Suc k) ?first) [0..<nat N]"
    using time_loop_result [where solve = solve and solver = "factorize LHS" and RHS = RHS
        and N = N and t = 0 and s = ?init] by (simp add: eq)
  obtain evs where "events ?s = events ?init @ evs"
    and "\<forall>e \<in> set evs. loop_event (factorize LHS) e"
    and "length (filter is_Solve evs) = nat (N - 0)"
    using time_loop_log [where solve = solve and solver = "factorize LHS" and RHS = RHS
        and N = N and t = 0 and s = ?init] by blast
  then show "\<exists>evs. trace (simulate factorize solve num_x alpha dt total_time output_prefix)
           = preamble num_x alpha dt total_time N output_prefix LHS @ evs
             @ [ExportResults output_prefix (spacing_of num_x) dt
                  (history (simulate factorize solve num_x alpha dt total_time output_prefix)),
                Completed]
           \<and> (\<forall>e \<in> set evs. loop_event (factorize LHS) e)
           \<and> length (filter is_Solve evs) = nat N"
    by (simp add: eq)
qed

lemma truncate_bounds:
  "\<bar>of_int (truncate_toward_zero q)\<bar> \<le> \<bar>q\<bar> \<and> \<bar>q - of_int (truncate_toward_zero q)\<bar> < 1
   \<and> (0 \<le> q \<longrightarrow> 0 \<le> truncate_toward_zero q) \<and> (q \<le> 0 \<longrightarrow> truncate_toward_zero q \<le> 0)"
proof (cases "0 \<le> q")
  case True
  have "of_int \<lfloor>q\<rfloor> \<le> q" "q < of_int \<lfloor>q\<rfloor> + 1" "0 \<le> \<lfloor>q\<rfloor>"
    using True by (simp_all add: floor_less_iff)
  then show ?thesis using True by (simp add: truncate_toward_zero_def) linarith
next
  case False
  have "q \<le> of_int \<lceil>q\<rceil>" "\<lceil>q\<rceil> \<le> 0"
    using False by (simp_all add: ceiling_le_iff)
  moreover have "of_int \<lceil>q\<rceil> < q + 1" by linarith
  ultimately have "q \<le> of_int \<lceil>q\<rceil>" "of_int \<lceil>q\<rceil> < q + 1" "\<lceil>q\<rceil> \<le> 0"
    by simp_all
  then show ?thesis using False by (simp add: truncate_toward_zero_def)
qed

lemma step_count_in_range:
  assumes "dt \<noteq> 0" "of_int INT_MIN - 1 < double_div total_time dt"
    "double_div total_time dt < of_int INT_MAX + 1"
  shows "step_count total_time dt = Inr (truncate_toward_zero (double_div total_time dt))"
  using assms by (simp add: step_count_def Let_def)

lemma step_count_short:
  assumes "0 < total_time" "total_time < dt" "is_double total_time" "is_double dt"
  shows "step_count total_time dt = Inr 0"
proof -
  have q: "0 \<le> double_div total_time dt" "double_div total_time dt < 1"
    using double_quotient_below_one [OF assms(3,4,1,2)] by (simp_all add: double_div_def)
  then have "\<lfloor>double_div total_time dt\<rfloor> = 0" by (simp add: floor_eq_iff)
  then have "truncate_toward_zero (double_div total_time dt) = 0"
    using q by (simp add: truncate_toward_zero_def)
  moreover have "of_int INT_MIN - 1 < double_div total_time dt"
    "double_div total_time dt < of_int INT_MAX + 1"
    using q by (simp_all add: INT_MIN_def INT_MAX_def)
  ultimately show ?thesis using assms step_count_in_range [of dt total_time] by simp
qed

subsection \<open>Step count\<close>

lemma initial_profile_5: "initial_profile (nat 5) (spacing_of 5) = [0, 0, 100, 0, 0]"
proof -
  have l: "[0..<5] = [0, 1, 2, 3, 4]" by (simp add: upt_rec)
  have "initial_profile (nat 5) (spacing_of 5)
        = map (hot_band (6004799503160661 / 2 ^ 55)) [0, 1, 2, 3, 4]"
    by (simp add: initial_profile_def l spacing_of_5)
  then show ?thesis by (simp add: hot_band_5 [simplified])
qed

lemma initial_profile_3: "initial_profile (nat 3) (spacing_of 3) = [0, 100, 0]"
proof -
  have l: "[0..<3] = [0, 1, 2]" by (simp add: upt_rec)
  have "initial_profile (nat 3) (spacing_of 3) = map (hot_band (1 / 4)) [0, 1, 2]"
    by (simp add: initial_profile_def l spacing_of_3)
  then show ?thesis by (simp add: hot_band_3 [simplified])
qed

lemma double_03: "binary64 (3 / 10) = 5404319552844595 / 2 ^ 54"
  by (subst binary64_eval [where n = 54]) (simp_all add: round_half_even_def)

lemma double_01: "binary64 (1 / 10) = 3602879701896397 / 2 ^ 55"
  by (subst binary64_eval [where n = 56]) (simp_all add: round_half_even_def)

lemma quotient_03_01:
  "double_div (5404319552844595 / 2 ^ 54) (3602879701896397 / 2 ^ 55) = 6755399441055743 / 2 ^ 51"
  unfolding double_div_def
  by (subst binary64_eval [where n = 51]) (simp_all add: round_half_even_def)

lemma quotient_1_001: "double_div 1 (5764607523034235 / 2 ^ 59) = 100"
  unfolding double_div_def
  by (subst binary64_eval [where n = 46]) (simp_all add: round_half_even_def)

lemma quotient_halves:
  "double_div (7 / 2) 1 = 7 / 2" "double_div (- 7 / 2) 1 = - 7 / 2"
  using binary64_exact [where x = "7 / 2" and n = 1 and m = 7]
    binary64_exact [where x = "- 7 / 2" and n = 1 and m = "- 7"]
  by (simp_all add: double_div_def)

text \<open>
  Claim C10.  The step count is the double quotient of total time and time step with
  the fractional part dropped (no further from zero than the quotient, less than one
  away from it, of the same sign), whenever that fits an \<^verbatim>\<open>int\<close>; the double quotient
  is within one rounding of the exact one.  When the total time is positive and smaller
  than the time step, both doubles, the count is zero, the loop body never runs, and a
  run ends with a history that holds the initial state only.
\<close>

theorem step_count_truncation:
  "(dt \<noteq> 0 \<and> of_int INT_MIN - 1 < double_div total_time dt
      \<and> double_div total_time dt < of_int INT_MAX + 1 \<longrightarrow>
      (\<exists>N. step_count total_time dt = Inr N
           \<and> \<bar>of_int N\<bar> \<le> \<bar>double_div total_time dt\<bar>
           \<and> \<bar>double_div total_time dt - of_int N\<bar> < 1
           \<and> (0 \<le> double_div total_time dt \<longrightarrow> 0 \<le> N)
           \<and> (double_div total_time dt \<le> 0 \<longrightarrow> N \<le> 0)))
   \<and> (2 powr (- 1022) \<le> \<bar>total_time / dt\<bar> \<longrightarrow>
        \<bar>double_div total_time dt - total_time / dt\<bar> \<le> \<bar>total_time / dt\<bar> / 2 ^ 53)
   \<and> (0 < total_time \<and> total_time < dt \<and> is_double total_time \<and> is_double dt \<longrightarrow>
        step_count total_time dt = Inr 0
        \<and> (\<forall>s. time_loop solve solver RHS 0 0 s = s)
        \<and> (2 \<le> num_x \<and> num_x + 1 \<le> INT_MAX \<longrightarrow>
             status (simulate factorize solve num_x alpha dt total_time output_prefix) = Exit 0
             \<and> history (simulate factorize solve num_x alpha dt total_time output_prefix)
                 = [initial_profile (nat num_x) (spacing_of num_x)]
             \<and> filter is_Solve
                  (trace (simulate factorize solve num_x alpha dt total_time output_prefix)) = []))"
proof (intro conjI impI)
  assume "dt \<noteq> 0 \<and> of_int INT_MIN - 1 < double_div total_time dt
      \<and> double_div total_time dt < of_int INT_MAX + 1"
  then have "step_count total_time dt = Inr (truncate_toward_zero (double_div total_time dt))"
    by (simp add: step_count_in_range)
  then show "\<exists>N. step_count total_time dt = Inr N
           \<and> \<bar>of_int N\<bar> \<le> \<bar>double_div total_time dt\<bar>
           \<and> \<bar>double_div total_time dt - of_int N\<bar> < 1
           \<and> (0 \<le> double_div total_time dt \<longrightarrow> 0 \<le> N)
           \<and> (double_div total_time dt \<le> 0 \<longrightarrow> N \<le> 0)"
    using truncate_bounds [of "double_div total_time dt"] by blast
next
  assume "2 powr (- 1022) \<le> \<bar>total_time / dt\<bar>"
  then show "\<bar>double_div total_time dt - total_time / dt\<bar> \<le> \<bar>total_time / dt\<bar> / 2 ^ 53"
    unfolding double_div_def by (rule binary64_relative)
next
  assume "0 < total_time \<and> total_time < dt \<and> is_double total_time \<and> is_double dt"
  then show "step_count total_time dt = Inr 0" by (simp add: step_count_short)
next
  show "\<forall>s. time_loop solve solver RHS 0 0 s = s" by (simp add: time_loop_done)
next
  assume short: "0 < total_time \<and> total_time < dt \<and> is_double total_time \<and> is_double dt"
    and n: "2 \<le> num_x \<and> num_x + 1 \<le> INT_MAX"
  have N: "step_count total_time dt = Inr 0" using short by (simp add: step_count_short)
  obtain LHS RHS' where sys: "system_of num_x alpha dt = (LHS, RHS')" by (cases "system_of num_x alpha dt")
  note run = simulate_run [OF conjunct1 [OF n] conjunct2 [OF n] N sys,
      of factorize solve output_prefix]
  show "status (simulate factorize solve num_x alpha dt total_time output_prefix) = Exit 0"
    by (rule run(1))
  show "history (simulate factorize solve num_x alpha dt total_time output_prefix)
          = [initial_profile (nat num_x) (spacing_of num_x)]"
    using run(2) by simp
  obtain evs where t: "trace (simulate factorize solve num_x alpha dt total_time output_prefix)
           = preamble num_x alpha dt total_time 0 output_prefix LHS @ evs
             @ [ExportResults output_prefix (spacing_of num_x) dt
                  (history (simulate factorize solve num_x alpha dt total_time output_prefix)),
                Completed]"
    and c: "length (filter is_Solve evs) = nat 0"
    using run(3) by blast
  show "filter is_Solve
          (trace (simulate factorize solve num_x alpha dt total_time output_prefix)) = []"
    using c unfolding t by (simp add: preamble_def Let_def)
qed

theorem step_count_truncation_witness:
  "step_count (7 / 2) 1 = Inr 3
   \<and> step_count (- 7 / 2) 1 = Inr (- 3)
   \<and> step_count (binary64 (3 / 10)) (binary64 (1 / 10)) = Inr 2
   \<and> step_count 1 (binary64 (1 / 100)) = Inr 100
   \<and> \<bar>double_div 1 (binary64 (1 / 100)) - 1 / binary64 (1 / 100)\<bar>
       \<le> \<bar>1 / binary64 (1 / 100)\<bar> / 2 ^ 53
   \<and> is_double (1 / 4) \<and> is_double (1 / 2)
   \<and> step_count (1 / 4) (1 / 2) = Inr 0
   \<and> status (simulate id cramer_solve 5 (1 / 100) (1 / 2) (1 / 4) ''results/temperature'')
       = Exit 0
   \<and> history (simulate id cramer_solve 5 (1 / 100) (1 / 2) (1 / 4) ''results/temperature'')
       = [[0, 0, 100, 0, 0]]"
proof -
  have r: "(1::real) \<noteq> 0 \<and> of_int INT_MIN - 1 < double_div (7 / 2) 1
           \<and> double_div (7 / 2) 1 < of_int INT_MAX + 1"
    by (simp add: quotient_halves INT_MIN_def INT_MAX_def)
  have r': "(1::real) \<noteq> 0 \<and> of_int INT_MIN - 1 < double_div (- 7 / 2) 1
           \<and> double_div (- 7 / 2) 1 < of_int INT_MAX + 1"
    unfolding quotient_halves by (simp add: INT_MIN_def INT_MAX_def)
  have u: "(3602879701896397 / 2 ^ 55 :: real) \<noteq> 0
           \<and> of_int INT_MIN - 1
               < double_div (5404319552844595 / 2 ^ 54) (3602879701896397 / 2 ^ 55)
           \<and> double_div (5404319552844595 / 2 ^ 54) (3602879701896397 / 2 ^ 55)
               < of_int INT_MAX + 1"
    unfolding quotient_03_01 by (simp add: INT_MIN_def INT_MAX_def)
  have v: "(5764607523034235 / 2 ^ 59 :: real) \<noteq> 0
           \<and> of_int INT_MIN - 1 < double_div 1 (5764607523034235 / 2 ^ 59)
           \<and> double_div 1 (5764607523034235 / 2 ^ 59) < of_int INT_MAX + 1"
    unfolding quotient_1_001 by (simp add: INT_MIN_def INT_MAX_def)
  have w: "2 powr (- 1022) \<le> \<bar>1 / (5764607523034235 / 2 ^ 59 :: real)\<bar>"
    using least_normal_small by simp
  note acc = step_count_truncation [of "5764607523034235 / 2 ^ 59" 1,
      THEN conjunct2, THEN conjunct1, rule_format, OF w]
  have d: "is_double (1 / 4)" "is_double (1 / 2)"
    by (simp_all add: is_double_def binary64_quarters)
  have s: "(0::real) < 1 / 4 \<and> (1 / 4 :: real) < 1 / 2 \<and> is_double (1 / 4) \<and> is_double (1 / 2)"
    using d by simp
  have n: "(2::int) \<le> 5 \<and> (5::int) + 1 \<le> INT_MAX" by (simp add: INT_MAX_def)
  obtain N where "step_count (7 / 2) 1 = Inr N" "\<bar>real_of_int N\<bar> \<le> \<bar>7 / 2\<bar>"
      "\<bar>7 / 2 - real_of_int N\<bar> < 1" "0 \<le> N"
    using step_count_truncation [of 1 "7 / 2", THEN conjunct1, rule_format, OF r]
    unfolding quotient_halves by auto
  moreover from this have "N = 3" by (simp; linarith?)
  moreover obtain M where "step_count (- 7 / 2) 1 = Inr M"
      "\<bar>real_of_int M\<bar> \<le> \<bar>- 7 / 2\<bar>"
      "\<bar>- 7 / 2 - real_of_int M\<bar> < 1" "M \<le> 0"
    using step_count_truncation [of 1 "- 7 / 2", THEN conjunct1, rule_format, OF r']
    unfolding quotient_halves by auto
  moreover from this have "M = - 3" by (simp; linarith?)
  moreover obtain P where "step_count (5404319552844595 / 2 ^ 54) (3602879701896397 / 2 ^ 55) = Inr P"
      "\<bar>real_of_int P\<bar> \<le> \<bar>6755399441055743 / 2 ^ 51\<bar>"
      "\<bar>6755399441055743 / 2 ^ 51 - real_of_int P\<bar> < 1"
    using step_count_truncation [of "3602879701896397 / 2 ^ 55" "5404319552844595 / 2 ^ 54",
        THEN conjunct1, rule_format, OF u]
    unfolding quotient_03_01 by blast
  moreover from this have "P = 2" by (simp; linarith?)
  moreover obtain Q where "step_count 1 (5764607523034235 / 2 ^ 59) = Inr Q"
      "\<bar>real_of_int Q\<bar> \<le> \<bar>100\<bar>" "\<bar>100 - real_of_int Q\<bar> < 1"
    using step_count_truncation [of "5764607523034235 / 2 ^ 59" 1,
        THEN conjunct1, rule_format, OF v]
    unfolding quotient_1_001 by blast
  moreover from this have "Q = 100" by (simp; linarith?)
  moreover note step_count_truncation [where dt = "1 / 2" and total_time = "1 / 4"
      and num_x = 5 and factorize = id and solve = cramer_solve and alpha = "1 / 100"
      and output_prefix = "''results/temperature''", THEN conjunct2, THEN conjunct2,
      rule_format, OF s]
  ultimately show ?thesis
    using n d acc unfolding double_03 double_01 double_001
    by (simp add: initial_profile_5 [simplified])
qed

subsection \<open>State history\<close>

lemma length_cramer_solve: "length (cramer_solve M b) = length M"
  by (simp add: cramer_solve_def)

lemma upt3: "[0..<3] = [0, 1, 2]"
  by (simp add: upt_rec)

lemma system_of_3:
  "system_of 3 (1 / 48) 1
   = ([[1, 0, 0], [0, 1, 0], [0, 0, 1]],
      [[1 / 3, 2 / 3, 0], [1 / 3, 1 / 3, 1 / 3], [0, 2 / 3, 1 / 3]])"
  by (simp add: system_of_def build_system_def averaging_operator_def diffusion_operator_def
      spacing_of_3 upt3 spec_averaging_entry_def spec_diffusion_entry_def
      mat_sub_def mat_add_def scalar_mult_def Let_def)

lemma funpow_length:
  fixes f :: "vec \<Rightarrow> vec"
  assumes "\<And>x. length (f x) = n" "length x = n"
  shows "length ((f ^^ k) x) = n"
proof (induction k)
  case 0
  show ?case using assms(2) by simp
next
  case (Suc k)
  show ?case using assms(1) [of "(f ^^ k) x"] by simp
qed

lemma time_loop_prefix:
  "prefix (T_history s) (T_history (time_loop solve solver RHS N t s))"
  using time_loop_result [where solve = solve and solver = solver and RHS = RHS and N = N
      and t = t and s = s] by simp

theorem history_length_counterexample:
  "step_count (- 1) (1 / 100) = Inr (- 100)
   \<and> status (simulate id cramer_solve 2 (1 / 100) (1 / 100) (- 1) ''results/temperature'') = Exit 0
   \<and> length (history (simulate id cramer_solve 2 (1 / 100) (1 / 100) (- 1)
                ''results/temperature'')) = 1
   \<and> int (length (history (simulate id cramer_solve 2 (1 / 100) (1 / 100) (- 1)
                ''results/temperature''))) \<noteq> - 100 + 1"
proof -
  have N: "step_count (- 1) (1 / 100) = Inr (- 100)"
    by (simp add: step_count_def double_div_def binary64_numeral truncate_toward_zero_def
        INT_MIN_def INT_MAX_def)
  obtain LHS RHS where sys: "system_of 2 (1 / 100) (1 / 100) = (LHS, RHS)"
    by (cases "system_of 2 (1 / 100) (1 / 100)")
  have n: "(2::int) \<le> 2" "(2::int) + 1 \<le> INT_MAX" by (simp_all add: INT_MAX_def)
  note run = simulate_run [OF n N sys, of id cramer_solve "''results/temperature''"]
  show ?thesis using N run(1) run(2) by simp
qed

text \<open>
  Claim C7, amended.  The history is append-only: it starts with the initial state, each
  pass of the loop appends exactly one vector, the solve result whose input is the
  previous entry, no pass changes an entry already there, and a completed run holds
  \<open>max step_count 0 + 1\<close> vectors, each as long as the cell count when the library's
  solve returns vectors of the dimension of the system.  As stated the claim counts
  \<open>step_count + 1\<close> vectors, which fails for a negative step count.
\<close>

theorem history_append_only:
  assumes "2 \<le> num_x" and "num_x + 1 \<le> INT_MAX"
    and "step_count total_time dt = Inr N"
    and "system_of num_x alpha dt = (LHS, RHS)"
    and "\<forall>b. length (solve (factorize LHS) b) = nat num_x"
  shows "status (simulate factorize solve num_x alpha dt total_time output_prefix) = Exit 0
    \<and> int (length (history (simulate factorize solve num_x alpha dt total_time output_prefix)))
        = max N 0 + 1
    \<and> history (simulate factorize solve num_x alpha dt total_time output_prefix) ! 0
        = initial_profile (nat num_x) (spacing_of num_x)
    \<and> (\<forall>k<nat N.
          history (simulate factorize solve num_x alpha dt total_time output_prefix) ! Suc k
          = solve (factorize LHS)
              (mat_vec RHS
                (history (simulate factorize solve num_x alpha dt total_time output_prefix) ! k)))
    \<and> (\<forall>T \<in> set (history (simulate factorize solve num_x alpha dt total_time output_prefix)).
          length T = nat num_x)
    \<and> (\<forall>t s. T_history (time_step solve (factorize LHS) RHS N t s)
               = T_history s @ [solve (factorize LHS) (mat_vec RHS (T_current s))])
    \<and> (\<forall>t s. prefix (T_history s) (T_history (time_loop solve (factorize LHS) RHS N t s)))"
proof -
  let ?f = "advance solve (factorize LHS) RHS"
  let ?first = "initial_profile (nat num_x) (spacing_of num_x)"
  let ?H = "history (simulate factorize solve num_x alpha dt total_time output_prefix)"
  note run = simulate_run [OF assms(1,2,3,4), of factorize solve output_prefix]
  have H: "?H = ?first # map (\<lambda>k. (?f ^^ Suc k) ?first) [0..<nat N]" by (rule run(2))
  have len: "int (length ?H) = max N 0 + 1" unfolding H by simp
  have first: "?H ! 0 = ?first" unfolding H by simp
  have nth: "?H ! k = (?f ^^ k) ?first" if "k \<le> nat N" for k
    using that unfolding H by (cases k) simp_all
  have step: "\<forall>k<nat N. ?H ! Suc k = solve (factorize LHS) (mat_vec RHS (?H ! k))"
    using nth by (simp add: advance_def)
  have f: "length (?f x) = nat num_x" for x using assms(5) by (simp add: advance_def)
  have l0: "length ?first = nat num_x" by (simp add: initial_profile_def)
  have dims: "\<forall>T \<in> set ?H. length T = nat num_x"
    unfolding H using funpow_length [of ?f "nat num_x" ?first, OF f l0] l0 f by auto
  have one: "\<forall>t s. T_history (time_step solve (factorize LHS) RHS N t s)
               = T_history s @ [solve (factorize LHS) (mat_vec RHS (T_current s))]"
    by (simp add: advance_def)
  have pre: "\<forall>t s. prefix (T_history s) (T_history (time_loop solve (factorize LHS) RHS N t s))"
    by (simp add: time_loop_prefix)
  show ?thesis by (intro conjI run(1) len first step dims one pre)
qed

theorem history_append_only_witness:
  "(2::int) \<le> 3 \<and> (3::int) + 1 \<le> INT_MAX \<and> step_count 2 1 = Inr 2
   \<and> (\<forall>b. length (cramer_solve (id [[1, 0, 0], [0, 1, 0], [0, 0, 1]]) b) = nat 3)
   \<and> status (simulate id cramer_solve 3 (1 / 48) 1 2 ''results/temperature'') = Exit 0
   \<and> int (length (history (simulate id cramer_solve 3 (1 / 48) 1 2 ''results/temperature''))) = 3
   \<and> history (simulate id cramer_solve 3 (1 / 48) 1 2 ''results/temperature'') ! 0 = [0, 100, 0]"
proof -
  have n: "(2::int) \<le> 3" "(3::int) + 1 \<le> INT_MAX" by (simp_all add: INT_MAX_def)
  have N: "step_count 2 1 = Inr 2"
    by (simp add: step_count_def double_div_def binary64_numeral truncate_toward_zero_def
        INT_MIN_def INT_MAX_def)
  have d: "\<forall>b. length (cramer_solve (id [[1, 0, 0], [0, 1, 0], [0, 0, 1]]) b) = nat 3"
    by (simp add: length_cramer_solve)
  show ?thesis
    using n N d history_append_only [where factorize = id and solve = cramer_solve
        and output_prefix = "''results/temperature''", OF n N system_of_3 d]
    by (simp add: initial_profile_3 [simplified])
qed

subsection \<open>Stability check, system builder and factorization\<close>

lemma loop_event_kinds:
  "loop_event solver e \<Longrightarrow>
     e \<noteq> CourantWarning \<and> \<not> is_CourantNumber e \<and> \<not> is_Factorize e
     \<and> (is_Solve e \<longrightarrow> (\<exists>b. e = Solve solver b))"
  by (cases e) simp_all

lemma agrees_self: "agrees n M f \<Longrightarrow> agrees n M (coeff M)"
  by (simp add: agrees_def coeff_def)

lemma agrees_scalar_mult: "agrees n M f \<Longrightarrow> agrees n (scalar_mult c M) (\<lambda>i j. c * f i j)"
  by (simp add: agrees_def scalar_mult_def)

lemma agrees_mat_sub:
  "agrees n M f \<Longrightarrow> agrees n N g \<Longrightarrow> agrees n (mat_sub M N) (\<lambda>i j. f i j - g i j)"
  by (simp add: agrees_def mat_sub_def)

lemma agrees_mat_add:
  "agrees n M f \<Longrightarrow> agrees n N g \<Longrightarrow> agrees n (mat_add M N) (\<lambda>i j. f i j + g i j)"
  by (simp add: agrees_def mat_add_def)

lemma build_system_agrees:
  assumes "agrees n A f" "agrees n B g" "build_system A B alpha dt = (LHS, RHS)"
  shows "agrees n LHS (\<lambda>i j. f i j - alpha * dt / 2 * g i j)"
    and "agrees n RHS (\<lambda>i j. f i j + alpha * dt / 2 * g i j)"
proof -
  have L: "LHS = mat_sub A (scalar_mult (alpha * dt / 2) B)"
    and R: "RHS = mat_add A (scalar_mult (alpha * dt / 2) B)"
    using assms(3) by (simp_all add: build_system_def Let_def)
  show "agrees n LHS (\<lambda>i j. f i j - alpha * dt / 2 * g i j)"
    unfolding L by (rule agrees_mat_sub [OF assms(1) agrees_scalar_mult [OF assms(2)]])
  show "agrees n RHS (\<lambda>i j. f i j + alpha * dt / 2 * g i j)"
    unfolding R by (rule agrees_mat_add [OF assms(1) agrees_scalar_mult [OF assms(2)]])
qed

lemma step_count_default: "step_count 1 (binary64 (1 / 100)) = Inr 100"
  unfolding double_001 step_count_def Let_def quotient_1_001
  by (simp add: truncate_toward_zero_def INT_MIN_def INT_MAX_def)

lemma step_count_one: "step_count 1 1 = Inr 1"
  by (simp add: step_count_def double_div_def binary64_numeral truncate_toward_zero_def
      INT_MIN_def INT_MAX_def)

lemma double_00032: "binary64 (32 / 10000) = 7378697629483821 / 2 ^ 61"
  by (subst binary64_eval [where n = 61]) (simp_all add: round_half_even_def)

lemma double_002: "binary64 (2 / 100) = 5764607523034235 / 2 ^ 58"
  by (subst binary64_eval [where n = 58]) (simp_all add: round_half_even_def)

lemma spacing_of_124: "spacing_of 124 = 1152921504606847 / 2 ^ 57"
  unfolding spacing_of_def L_def double_div_def
  by (subst binary64_eval [where n = 59]) (simp_all add: round_half_even_def)

lemma courant_ratio_above:
  "courant_ratio (7378697629483821 / 2 ^ 61) (5764607523034235 / 2 ^ 59)
     (1152921504606847 / 2 ^ 57) = 4503599627370497 / 2 ^ 53"
proof -
  have 1: "double_mult (7378697629483821 / 2 ^ 61) (5764607523034235 / 2 ^ 59)
           = 2361183241434823 / 2 ^ 66"
    unfolding double_mult_def
    by (subst binary64_eval [where n = 67]) (simp_all add: round_half_even_def)
  have 2: "double_mult (1152921504606847 / 2 ^ 57) (1152921504606847 / 2 ^ 57)
           = 4722366482869645 / 2 ^ 66"
    unfolding double_mult_def
    by (subst binary64_eval [where n = 66]) (simp_all add: round_half_even_def)
  show ?thesis
    unfolding courant_ratio_def 1 2 double_div_def
    by (subst binary64_eval [where n = 53]) (simp_all add: round_half_even_def)
qed

lemma courant_ratio_below:
  "courant_ratio (5764607523034235 / 2 ^ 58) 1 (3602879701896397 / 2 ^ 54)
     = 4503599627370495 / 2 ^ 53"
proof -
  have 1: "double_mult (5764607523034235 / 2 ^ 58) 1 = 5764607523034235 / 2 ^ 58"
    unfolding double_mult_def
    by (subst binary64_eval [where n = 58]) (simp_all add: round_half_even_def)
  have 2: "double_mult (3602879701896397 / 2 ^ 54) (3602879701896397 / 2 ^ 54)
           = 1441151880758559 / 2 ^ 55"
    unfolding double_mult_def
    by (subst binary64_eval [where n = 57]) (simp_all add: round_half_even_def)
  show ?thesis
    unfolding courant_ratio_def 1 2 double_div_def
    by (subst binary64_eval [where n = 54]) (simp_all add: round_half_even_def)
qed

text \<open>
  Claim C8.  The ratio \<open>alpha * dt / dx\<^sup>2\<close>, as the double operations of line 112 give
  it, is reported once, right after the summary and before anything is allocated or
  solved; the warning follows it exactly when that ratio exceeds one half; and with or
  without the warning the run goes on through all its time steps and ends with
  status 0.
\<close>

theorem courant_warning_advisory:
  assumes "2 \<le> num_x" and "num_x + 1 \<le> INT_MAX" and "step_count total_time dt = Inr N"
  shows "\<exists>ratio evs.
           ratio = double_div (double_mult alpha dt)
                     (double_mult (spacing_of num_x) (spacing_of num_x))
         \<and> trace (simulate factorize solve num_x alpha dt total_time output_prefix)
           = [Summary num_x alpha (spacing_of num_x) dt total_time N output_prefix,
              CourantNumber ratio]
             @ (if ratio > 1 / 2 then [CourantWarning] else [])
             @ evs
         \<and> (\<forall>e \<in> set evs. e \<noteq> CourantWarning \<and> \<not> is_CourantNumber e)
         \<and> length (filter is_Solve evs) = nat N
         \<and> (CourantWarning \<in> set (trace (simulate factorize solve num_x alpha dt total_time
                output_prefix)) \<longleftrightarrow> ratio > 1 / 2)
         \<and> status (simulate factorize solve num_x alpha dt total_time output_prefix) = Exit 0
         \<and> int (length (history (simulate factorize solve num_x alpha dt total_time
                output_prefix))) = max N 0 + 1"
proof -
  let ?r = "simulate factorize solve num_x alpha dt total_time output_prefix"
  let ?dx = "spacing_of num_x"
  let ?ratio = "double_div (double_mult alpha dt) (double_mult ?dx ?dx)"
  obtain LHS RHS where sys: "system_of num_x alpha dt = (LHS, RHS)"
    by (cases "system_of num_x alpha dt")
  note run = simulate_run [OF assms sys, of factorize solve output_prefix]
  obtain loop where t: "trace ?r = preamble num_x alpha dt total_time N output_prefix LHS @ loop
             @ [ExportResults output_prefix ?dx dt (history ?r), Completed]"
    and l: "\<forall>e \<in> set loop. loop_event (factorize LHS) e"
    and c: "length (filter is_Solve loop) = nat N"
    using run(3) by blast
  let ?evs = "[AllocVector num_x, PrintInitial (initial_profile (nat num_x) ?dx), MakeResultsDir,
            AllocMatrix num_x num_x, AllocMatrix num_x num_x,
            AllocMatrix num_x num_x, AllocMatrix num_x num_x,
            AllocMatrix num_x num_x, Factorize LHS, AllocVector num_x] @ loop
            @ [ExportResults output_prefix ?dx dt (history ?r), Completed]"
  have 1: "trace ?r = [Summary num_x alpha ?dx dt total_time N output_prefix, CourantNumber ?ratio]
             @ (if ?ratio > 1 / 2 then [CourantWarning] else []) @ ?evs"
    unfolding t by (simp add: preamble_def courant_ratio_def Let_def)
  have 2: "\<forall>e \<in> set ?evs. e \<noteq> CourantWarning \<and> \<not> is_CourantNumber e"
    using l loop_event_kinds [of "factorize LHS"] by auto
  have 3: "length (filter is_Solve ?evs) = nat N" using c by simp
  have 4: "CourantWarning \<in> set (trace ?r) \<longleftrightarrow> ?ratio > 1 / 2"
    unfolding 1 using 2 by auto
  have 5: "int (length (history ?r)) = max N 0 + 1" unfolding run(2) by simp
  show ?thesis using 1 2 3 4 run(1) 5 by blast
qed

theorem courant_warning_advisory_witness:
  "(2::int) \<le> 124 \<and> (124::int) + 1 \<le> INT_MAX \<and> step_count 1 (binary64 (1 / 100)) = Inr 100
   \<and> CourantWarning \<in> set (trace (simulate id cramer_solve 124 (binary64 (32 / 10000))
         (binary64 (1 / 100)) 1 ''results/temperature''))
   \<and> status (simulate id cramer_solve 124 (binary64 (32 / 10000)) (binary64 (1 / 100)) 1
         ''results/temperature'') = Exit 0
   \<and> length (history (simulate id cramer_solve 124 (binary64 (32 / 10000)) (binary64 (1 / 100)) 1
         ''results/temperature'')) = 101
   \<and> (2::int) \<le> 4 \<and> (4::int) + 1 \<le> INT_MAX \<and> step_count 1 1 = Inr 1
   \<and> CourantWarning \<notin> set (trace (simulate id cramer_solve 4 (binary64 (2 / 100)) 1 1
         ''results/temperature''))
   \<and> status (simulate id cramer_solve 4 (binary64 (2 / 100)) 1 1 ''results/temperature'') = Exit 0
   \<and> length (history (simulate id cramer_solve 4 (binary64 (2 / 100)) 1 1
         ''results/temperature'')) = 2"
proof -
  have n: "(2::int) \<le> 124" "(124::int) + 1 \<le> INT_MAX" by (simp_all add: INT_MAX_def)
  have m: "(2::int) \<le> 4" "(4::int) + 1 \<le> INT_MAX" by (simp_all add: INT_MAX_def)
  have above: "double_div (double_mult (binary64 (32 / 10000)) (binary64 (1 / 100)))
                 (double_mult (spacing_of 124) (spacing_of 124)) > 1 / 2"
    using courant_ratio_above
    unfolding courant_ratio_def double_00032 double_001 spacing_of_124 by simp
  have below: "\<not> double_div (double_mult (binary64 (2 / 100)) 1)
                 (double_mult (spacing_of 4) (spacing_of 4)) > 1 / 2"
    using courant_ratio_below
    unfolding courant_ratio_def double_002 spacing_of_4 by simp
  note a = courant_warning_advisory [OF n step_count_default, where factorize = id
      and solve = cramer_solve and alpha = "binary64 (32 / 10000)"
      and output_prefix = "''results/temperature''"]
  note b = courant_warning_advisory [OF m step_count_one, where factorize = id
      and solve = cramer_solve and alpha = "binary64 (2 / 100)"
      and output_prefix = "''results/temperature''"]
  show ?thesis using n m step_count_default step_count_one above below a b by auto
qed

text \<open>
  Claim C1.  For every run with at least two cells the left-hand operator is the
  averaging operator minus \<open>alpha * dt / 2\<close> times the scaled diffusion operator and the
  right-hand operator is their sum with the same factor, entry by entry.  The trace of
  the run holds exactly one factorization, of the left-hand operator, placed before the
  first solve; all \<open>max step_count 0\<close> solves use the object that factorization returned.
\<close>

theorem system_operators_single_factorization:
  assumes "2 \<le> num_x" and "num_x + 1 \<le> INT_MAX" and "step_count total_time dt = Inr N"
  shows "\<exists>A B LHS RHS pre post.
           operator_assembly num_x (spacing_of num_x) = Inr (A, B)
         \<and> build_system A B alpha dt = (LHS, RHS)
         \<and> agrees (nat num_x) LHS (\<lambda>i j. coeff A i j - alpha * dt / 2 * coeff B i j)
         \<and> agrees (nat num_x) RHS (\<lambda>i j. coeff A i j + alpha * dt / 2 * coeff B i j)
         \<and> trace (simulate factorize solve num_x alpha dt total_time output_prefix)
             = pre @ Factorize LHS # post
         \<and> (\<forall>e \<in> set pre. \<not> is_Factorize e \<and> \<not> is_Solve e)
         \<and> (\<forall>e \<in> set post. \<not> is_Factorize e
                \<and> (is_Solve e \<longrightarrow> (\<exists>b. e = Solve (factorize LHS) b)))
         \<and> length (filter is_Solve post) = nat N"
proof -
  let ?r = "simulate factorize solve num_x alpha dt total_time output_prefix"
  let ?dx = "spacing_of num_x"
  let ?A = "averaging_operator (nat num_x)"
  let ?B = "diffusion_operator (nat num_x) ?dx"
  obtain LHS RHS where sys: "system_of num_x alpha dt = (LHS, RHS)"
    by (cases "system_of num_x alpha dt")
  then have bs: "build_system ?A ?B alpha dt = (LHS, RHS)" by (simp add: system_of_def)
  note run = simulate_run [OF assms sys, of factorize solve output_prefix]
  obtain loop where t: "trace ?r = preamble num_x alpha dt total_time N output_prefix LHS @ loop
             @ [ExportResults output_prefix ?dx dt (history ?r), Completed]"
    and l: "\<forall>e \<in> set loop. loop_event (factorize LHS) e"
    and c: "length (filter is_Solve loop) = nat N"
    using run(3) by blast
  let ?pre = "[Summary num_x alpha ?dx dt total_time N output_prefix,
          CourantNumber (courant_ratio alpha dt ?dx)]
         @ (if courant_ratio alpha dt ?dx > 5 / 10 then [CourantWarning] else [])
         @ [AllocVector num_x, PrintInitial (initial_profile (nat num_x) ?dx), MakeResultsDir,
            AllocMatrix num_x num_x, AllocMatrix num_x num_x,
            AllocMatrix num_x num_x, AllocMatrix num_x num_x,
            AllocMatrix num_x num_x]"
  let ?post = "AllocVector num_x # loop
                 @ [ExportResults output_prefix ?dx dt (history ?r), Completed]"
  have 1: "operator_assembly num_x ?dx = Inr (?A, ?B)"
    by (rule operator_assembly_eq [OF assms(1)])
  have 2: "agrees (nat num_x) LHS (\<lambda>i j. coeff ?A i j - alpha * dt / 2 * coeff ?B i j)"
    and 3: "agrees (nat num_x) RHS (\<lambda>i j. coeff ?A i j + alpha * dt / 2 * coeff ?B i j)"
    using build_system_agrees [OF agrees_self [OF agrees_averaging_operator]
        agrees_self [OF agrees_diffusion_operator] bs] by simp_all
  have 4: "trace ?r = ?pre @ Factorize LHS # ?post"
    unfolding t by (simp add: preamble_def Let_def)
  have 5: "\<forall>e \<in> set ?pre. \<not> is_Factorize e \<and> \<not> is_Solve e" by simp
  have 6: "\<forall>e \<in> set ?post. \<not> is_Factorize e
                \<and> (is_Solve e \<longrightarrow> (\<exists>b. e = Solve (factorize LHS) b))"
    using l loop_event_kinds [of "factorize LHS"] by auto
  have 7: "length (filter is_Solve ?post) = nat N" using c by simp
  show ?thesis using 1 bs 2 3 4 5 6 7 by blast
qed

theorem system_operators_single_factorization_witness:
  "(2::int) \<le> 3 \<and> (3::int) + 1 \<le> INT_MAX \<and> step_count 2 1 = Inr 2
   \<and> filter is_Factorize (trace (simulate id cramer_solve 3 (1 / 48) 1 2 ''results/temperature''))
       = [Factorize [[1, 0, 0], [0, 1, 0], [0, 0, 1]]]
   \<and> length (filter is_Solve
        (trace (simulate id cramer_solve 3 (1 / 48) 1 2 ''results/temperature''))) = 2"
proof -
  let ?r = "simulate id cramer_solve 3 (1 / 48) 1 2 ''results/temperature''"
  have n: "(2::int) \<le> 3" "(3::int) + 1 \<le> INT_MAX" by (simp_all add: INT_MAX_def)
  have N: "step_count 2 1 = Inr 2"
    by (simp add: step_count_def double_div_def binary64_numeral truncate_toward_zero_def
        INT_MIN_def INT_MAX_def)
  obtain A B LHS RHS pre post
    where asm: "operator_assembly 3 (spacing_of 3) = Inr (A, B)"
      and bs: "build_system A B (1 / 48) 1 = (LHS, RHS)"
      and t: "trace ?r = pre @ Factorize LHS # post"
      and pre: "\<forall>e \<in> set pre. \<not> is_Factorize e \<and> \<not> is_Solve e"
      and post: "\<forall>e \<in> set post. \<not> is_Factorize e
                \<and> (is_Solve e \<longrightarrow> (\<exists>b. e = Solve (id LHS) b))"
      and c: "length (filter is_Solve post) = nat 2"
    using system_operators_single_factorization [OF n N, of "1 / 48" id cramer_solve
        "''results/temperature''"] by blast
  have "A = averaging_operator (nat 3)" "B = diffusion_operator (nat 3) (spacing_of 3)"
    using asm operator_assembly_eq [OF n(1), of "spacing_of 3"] by simp_all
  then have LHS: "LHS = [[1, 0, 0], [0, 1, 0], [0, 0, 1]]"
    using bs system_of_3 by (simp add: system_of_def)
  have f1: "filter is_Factorize pre = []" "filter is_Solve pre = []"
    using pre by (simp_all add: filter_empty_conv)
  have f2: "filter is_Factorize post = []" using post by (simp add: filter_empty_conv)
  show ?thesis using n N c unfolding t by (simp add: f1 f2 LHS)
qed

subsection \<open>Command line\<close>






subsection \<open>Products with the operators\<close>

lemma averaging_closure: "spec_averaging_entry n = closure_entry (1 / 6) (4 / 6) (2 / 6) n"
  by (intro ext) (simp add: spec_averaging_entry_def closure_entry_def)

lemma diffusion_closure: "spec_diffusion_entry n = closure_entry 1 (- 2) 2 n"
  by (intro ext) (simp add: spec_diffusion_entry_def closure_entry_def)

lemma dot_sum:
  assumes "length r = n" "length x = n"
  shows "dot r x = (\<Sum>j<n. r ! j * x ! j)"
proof -
  have "dot r x = (\<Sum>j = 0..<length (zip r x). map (\<lambda>(a, b). a * b) (zip r x) ! j)"
    by (simp add: dot_def sum_list_sum_nth)
  also have "\<dots> = (\<Sum>j = 0..<n. r ! j * x ! j)"
    using assms by (intro sum.cong) simp_all
  finally show ?thesis by (simp add: atLeast0LessThan)
qed

lemma mat_vec_nth:
  assumes "agrees n M f" "length x = n" "i < n"
  shows "mat_vec M x ! i = (\<Sum>j<n. f i j * x ! j)"
proof -
  have "mat_vec M x ! i = dot (M ! i) x" using assms by (simp add: mat_vec_def agrees_def)
  also have "\<dots> = (\<Sum>j<n. M ! i ! j * x ! j)"
    using assms by (intro dot_sum) (simp_all add: agrees_def)
  also have "\<dots> = (\<Sum>j<n. f i j * x ! j)"
    using assms by (intro sum.cong) (simp_all add: agrees_def)
  finally show ?thesis .
qed

lemma length_mat_vec: "agrees n M f \<Longrightarrow> length (mat_vec M x) = n"
  by (simp add: mat_vec_def agrees_def)

lemma pick3:
  fixes x :: "nat \<Rightarrow> real"
  assumes "p < n" "q < n" "r < n" "p \<noteq> q" "q \<noteq> r" "p \<noteq> r"
  shows "(\<Sum>j<n. (if j = p then a else if j = q then b else if j = r then c else 0) * x j)
         = a * x p + b * x q + c * x r"
proof -
  have "(\<Sum>j<n. (if j = p then a else if j = q then b else if j = r then c else 0) * x j)
        = (\<Sum>j<n. (if j = p then a * x j else 0) + (if j = q then b * x j else 0)
                     + (if j = r then c * x j else 0))"
    using assms by (intro sum.cong) auto
  also have "\<dots> = a * x p + b * x q + c * x r"
    using assms by (simp add: sum.distrib)
  finally show ?thesis .
qed

lemma pick2:
  fixes x :: "nat \<Rightarrow> real"
  assumes "p < n" "q < n" "p \<noteq> q"
  shows "(\<Sum>j<n. (if j = p then a else if j = q then b else 0) * x j) = a * x p + b * x q"
proof -
  have "(\<Sum>j<n. (if j = p then a else if j = q then b else 0) * x j)
        = (\<Sum>j<n. (if j = p then a * x j else 0) + (if j = q then b * x j else 0))"
    using assms by (intro sum.cong) auto
  also have "\<dots> = a * x p + b * x q"
    using assms by (simp add: sum.distrib)
  finally show ?thesis .
qed

lemma closure_row_first:
  fixes x :: "nat \<Rightarrow> real"
  assumes "2 \<le> n"
  shows "(\<Sum>j<n. closure_entry off diag bnd n 0 j * x j) = diag * x 0 + bnd * x 1"
proof -
  have "(\<Sum>j<n. closure_entry off diag bnd n 0 j * x j)
        = (\<Sum>j<n. (if j = 0 then diag else if j = 1 then bnd else 0) * x j)"
    by (intro sum.cong) (simp_all add: closure_entry_def)
  then show ?thesis using pick2 [of 0 n 1 diag bnd x] assms by simp
qed

lemma closure_row_last:
  fixes x :: "nat \<Rightarrow> real"
  shows "(\<Sum>j<Suc (Suc m). closure_entry off diag bnd (Suc (Suc m)) (Suc m) j * x j)
         = bnd * x m + diag * x (Suc m)"
proof -
  have "(\<Sum>j<Suc (Suc m). closure_entry off diag bnd (Suc (Suc m)) (Suc m) j * x j)
        = (\<Sum>j<Suc (Suc m). (if j = m then bnd else if j = Suc m then diag else 0) * x j)"
    by (intro sum.cong) (simp_all add: closure_entry_def)
  then show ?thesis using pick2 [of m "Suc (Suc m)" "Suc m" bnd diag x] by simp
qed

lemma closure_row_interior:
  fixes x :: "nat \<Rightarrow> real"
  assumes "1 \<le> i" "i + 2 \<le> n"
  shows "(\<Sum>j<n. closure_entry off diag bnd n i j * x j)
         = off * x (i - 1) + diag * x i + off * x (i + 1)"
proof -
  have "(\<Sum>j<n. closure_entry off diag bnd n i j * x j)
        = (\<Sum>j<n. (if j = i - 1 then off else if j = i then diag
                     else if j = i + 1 then off else 0) * x j)"
    using assms by (intro sum.cong) (auto simp: closure_entry_def)
  then show ?thesis using pick3 [of "i - 1" n i "i + 1" off diag off x] assms by simp
qed

subsection \<open>The trapezoid sum under the operators\<close>

lemma shifted_sums:
  fixes x :: "nat \<Rightarrow> real"
  shows "(\<Sum>i = 1..<Suc m. x (i - 1)) = x 0 + (\<Sum>i = 1..<Suc m. x i) - x m"
    and "(\<Sum>i = 1..<Suc m. x (i + 1)) = (\<Sum>i = 1..<Suc m. x i) - x 1 + x (Suc m)"
    and "(\<Sum>i<Suc (Suc m). x i) = x 0 + (\<Sum>i = 1..<Suc m. x i) + x (Suc m)"
proof (induction m)
  case 0
  {
    case 1 show ?case by simp
  next
    case 2 show ?case by simp
  next
    case 3 show ?case by simp
  }
next
  case (Suc m)
  {
    case 1 show ?case using Suc.IH(1) by simp
  next
    case 2 show ?case using Suc.IH(2) by simp
  next
    case 3 show ?case using Suc.IH(3) by simp
  }
qed

lemma trapezoid_split:
  "trapezoid (Suc (Suc m)) y = y 0 / 2 + (\<Sum>i = 1..<Suc m. y i) + y (Suc m) / 2"
  unfolding trapezoid_def shifted_sums(3) by simp

lemma trapezoid_closure:
  fixes x :: "nat \<Rightarrow> real"
  assumes "2 \<le> n"
  shows "trapezoid n (\<lambda>i. \<Sum>j<n. closure_entry off diag (2 * off) n i j * x j)
         = (2 * off + diag) * trapezoid n x"
proof -
  obtain m where n: "n = Suc (Suc m)"
    using assms by (metis Suc_le_D numeral_2_eq_2 Suc_le_mono)
  let ?y = "\<lambda>i. \<Sum>j<n. closure_entry off diag (2 * off) n i j * x j"
  have y0: "?y 0 = diag * x 0 + 2 * off * x 1"
    using closure_row_first [OF assms, of off diag "2 * off" x] by simp
  have yl: "?y (Suc m) = 2 * off * x m + diag * x (Suc m)"
    unfolding n using closure_row_last [of off diag "2 * off" m x] by simp
  have yi: "?y i = off * x (i - 1) + diag * x i + off * x (i + 1)" if "i \<in> {1..<Suc m}" for i
    using that closure_row_interior [of i n off diag "2 * off" x] by (simp add: n)
  have "(\<Sum>i = 1..<Suc m. ?y i)
        = (\<Sum>i = 1..<Suc m. off * x (i - 1) + diag * x i + off * x (i + 1))"
    by (intro sum.cong refl yi)
  also have "\<dots> = off * (\<Sum>i = 1..<Suc m. x (i - 1)) + diag * (\<Sum>i = 1..<Suc m. x i)
                  + off * (\<Sum>i = 1..<Suc m. x (i + 1))"
    by (simp only: sum.distrib sum_distrib_left)
  finally have mid: "(\<Sum>i = 1..<Suc m. ?y i)
        = off * (x 0 + (\<Sum>i = 1..<Suc m. x i) - x m) + diag * (\<Sum>i = 1..<Suc m. x i)
          + off * ((\<Sum>i = 1..<Suc m. x i) - x 1 + x (Suc m))"
    by (simp only: shifted_sums(1,2))
  have "trapezoid n ?y = ?y 0 / 2 + (\<Sum>i = 1..<Suc m. ?y i) + ?y (Suc m) / 2"
    unfolding n by (rule trapezoid_split)
  also have "\<dots> = (2 * off + diag) * (x 0 / 2 + (\<Sum>i = 1..<Suc m. x i) + x (Suc m) / 2)"
    unfolding mid y0 yl by (simp add: algebra_simps add_divide_distrib)
  also have "\<dots> = (2 * off + diag) * trapezoid n x"
    unfolding n trapezoid_split ..
  finally show ?thesis .
qed

subsection \<open>Conservation\<close>

lemma trapezoid_cong:
  assumes "0 < n" "\<And>i. i < n \<Longrightarrow> y i = z i"
  shows "trapezoid n y = trapezoid n z"
  using assms by (simp add: trapezoid_def)

lemma trapezoid_energy_nth:
  assumes "length T = n" "0 < n"
  shows "trapezoid_energy dx T = dx * trapezoid n (\<lambda>i. T ! i)"
proof -
  have "T \<noteq> []" using assms by auto
  then have "hd T = T ! 0" "last T = T ! (n - 1)"
    using assms by (simp_all add: hd_conv_nth last_conv_nth)
  moreover have "sum_list T = (\<Sum>i<n. T ! i)"
    using assms by (simp add: sum_list_sum_nth atLeast0LessThan)
  ultimately show ?thesis by (simp add: trapezoid_energy_def trapezoid_def)
qed

lemma trapezoid_mat_vec:
  assumes "agrees n M (closure_entry off diag (2 * off) n)" "length T = n" "2 \<le> n"
  shows "trapezoid n (\<lambda>i. mat_vec M T ! i) = (2 * off + diag) * trapezoid n (\<lambda>i. T ! i)"
proof -
  have "trapezoid n (\<lambda>i. mat_vec M T ! i)
        = trapezoid n (\<lambda>i. \<Sum>j<n. closure_entry off diag (2 * off) n i j * T ! j)"
    using assms by (intro trapezoid_cong mat_vec_nth) simp_all
  then show ?thesis using trapezoid_closure [OF assms(3), of off diag "\<lambda>i. T ! i"] by simp
qed

lemma system_of_closure:
  assumes "system_of num_x alpha dt = (LHS, RHS)"
  defines "r \<equiv> alpha * dt / 2 / (spacing_of num_x * spacing_of num_x)"
  shows "agrees (nat num_x) LHS (closure_entry (1 / 6 - r) (4 / 6 + 2 * r) (2 * (1 / 6 - r)) (nat num_x))"
    and "agrees (nat num_x) RHS (closure_entry (1 / 6 + r) (4 / 6 - 2 * r) (2 * (1 / 6 + r)) (nat num_x))"
proof -
  let ?n = "nat num_x" and ?dx = "spacing_of num_x"
  have bs: "build_system (averaging_operator ?n) (diffusion_operator ?n ?dx) alpha dt = (LHS, RHS)"
    using assms(1) by (simp add: system_of_def)
  note ag = build_system_agrees [OF agrees_averaging_operator agrees_diffusion_operator bs]
  show "agrees ?n LHS (closure_entry (1 / 6 - r) (4 / 6 + 2 * r) (2 * (1 / 6 - r)) ?n)"
    by (rule agrees_cong [OF ag(1)])
       (simp add: averaging_closure diffusion_closure closure_entry_def r_def)
  show "agrees ?n RHS (closure_entry (1 / 6 + r) (4 / 6 - 2 * r) (2 * (1 / 6 + r)) ?n)"
    by (rule agrees_cong [OF ag(2)])
       (simp add: averaging_closure diffusion_closure closure_entry_def r_def)
qed

lemma advance_conserves:
  assumes "2 \<le> num_x" "system_of num_x alpha dt = (LHS, RHS)"
    and "solves_system factorize solve LHS" "length T = nat num_x"
  shows "length (advance solve (factorize LHS) RHS T) = nat num_x"
    and "trapezoid_energy dx (advance solve (factorize LHS) RHS T) = trapezoid_energy dx T"
proof -
  let ?n = "nat num_x"
  let ?T' = "advance solve (factorize LHS) RHS T"
  define r where "r = alpha * dt / 2 / (spacing_of num_x * spacing_of num_x)"
  have n: "2 \<le> ?n" "0 < ?n" using assms(1) by simp_all
  have L: "agrees ?n LHS (closure_entry (1 / 6 - r) (4 / 6 + 2 * r) (2 * (1 / 6 - r)) ?n)"
    and R: "agrees ?n RHS (closure_entry (1 / 6 + r) (4 / 6 - 2 * r) (2 * (1 / 6 + r)) ?n)"
    using system_of_closure [OF assms(2)] by (simp_all add: r_def)
  have lenL: "length LHS = ?n" using L by (simp add: agrees_def)
  have lenb: "length (mat_vec RHS T) = ?n" using R by (rule length_mat_vec)
  have len: "length ?T' = ?n" and sol: "mat_vec LHS ?T' = mat_vec RHS T"
    using assms(3) lenL lenb by (simp_all add: solves_system_def advance_def)
  show "length ?T' = ?n" by (rule len)
  have "trapezoid ?n (\<lambda>i. ?T' ! i) = trapezoid ?n (\<lambda>i. mat_vec LHS ?T' ! i)"
    using trapezoid_mat_vec [OF L len n(1)] by simp
  also have "\<dots> = trapezoid ?n (\<lambda>i. mat_vec RHS T ! i)" by (simp only: sol)
  also have "\<dots> = trapezoid ?n (\<lambda>i. T ! i)"
    using trapezoid_mat_vec [OF R assms(4) n(1)] by simp
  finally show "trapezoid_energy dx ?T' = trapezoid_energy dx T"
    using trapezoid_energy_nth [OF len n(2)] trapezoid_energy_nth [OF assms(4) n(2)] by simp
qed

lemma iterates_conserve:
  assumes "2 \<le> num_x" "system_of num_x alpha dt = (LHS, RHS)"
    and "solves_system factorize solve LHS" "length T = nat num_x"
  shows "length ((advance solve (factorize LHS) RHS ^^ k) T) = nat num_x
         \<and> trapezoid_energy dx ((advance solve (factorize LHS) RHS ^^ k) T) = trapezoid_energy dx T"
proof (induction k)
  case 0
  show ?case using assms(4) by simp
next
  case (Suc k)
  then show ?case
    using advance_conserves(1) [OF assms(1,2,3), of "(advance solve (factorize LHS) RHS ^^ k) T"]
      advance_conserves(2) [OF assms(1,2,3), of "(advance solve (factorize LHS) RHS ^^ k) T" dx]
    by simp
qed

lemma length3: "length b = 3 \<Longrightarrow> \<exists>x y z. b = [x, y, z]"
  by (auto simp: length_Suc_conv eval_nat_numeral)

lemma det3:
  "det [[a, b, c], [d, e, f], [g, h, i]]
   = a * (e * i - f * h) - b * (d * i - f * g) + c * (d * h - e * g)"
  by (simp add: upt_rec algebra_simps)

lemma cramer_identity3:
  "cramer_solve [[1, 0, 0], [0, 1, 0], [0, 0, 1]] [x, y, z] = [x, y, z]"
  by (simp add: cramer_solve_def replace_col_def upt_rec)

lemma solves_identity3: "solves_system id cramer_solve [[1, 0, 0], [0, 1, 0], [0, 0, 1]]"
proof -
  have "mat_vec [[1, 0, 0], [0, 1, 0], [0, 0, 1]]
          (cramer_solve [[1, 0, 0], [0, 1, 0], [0, 0, 1]] b) = b" if len: "length b = 3" for b
  proof -
    obtain x y z where b: "b = [x, y, z]" using length3 [OF len] by blast
    show ?thesis unfolding b cramer_identity3 by (simp add: mat_vec_def dot_def)
  qed
  then show ?thesis by (simp add: solves_system_def length_cramer_solve)
qed


lemma one_step_3:
  "history (simulate id cramer_solve 3 (1 / 48) 1 1 ''results/temperature'')
   = [[0, 100, 0], [200 / 3, 100 / 3, 200 / 3]]"
proof -
  have n: "(2::int) \<le> 3" "(3::int) + 1 \<le> INT_MAX" by (simp_all add: INT_MAX_def)
  have N: "step_count 1 1 = Inr 1"
    by (simp add: step_count_def double_div_def binary64_numeral truncate_toward_zero_def
        INT_MIN_def INT_MAX_def)
  have "mat_vec [[1 / 3, 2 / 3, 0], [1 / 3, 1 / 3, 1 / 3], [0, 2 / 3, 1 / 3]] [0, 100, 0]
        = [200 / 3, 100 / 3, 200 / 3]"
    by (simp add: mat_vec_def dot_def)
  then show ?thesis
    unfolding simulate_run(2) [OF n N system_of_3]
    by (simp add: initial_profile_3 [simplified] advance_def cramer_identity3)
qed

theorem plain_energy_not_conserved:
  "(0::real) < 1 / 48 \<and> (0::real) < 1
   \<and> system_of 3 (1 / 48) 1
       = ([[1, 0, 0], [0, 1, 0], [0, 0, 1]],
          [[1 / 3, 2 / 3, 0], [1 / 3, 1 / 3, 1 / 3], [0, 2 / 3, 1 / 3]])
   \<and> history (simulate id cramer_solve 3 (1 / 48) 1 1 ''results/temperature'')
       = [[0, 100, 0], [200 / 3, 100 / 3, 200 / 3]]
   \<and> mat_vec [[1, 0, 0], [0, 1, 0], [0, 0, 1]] [200 / 3, 100 / 3, 200 / 3]
       = mat_vec [[1 / 3, 2 / 3, 0], [1 / 3, 1 / 3, 1 / 3], [0, 2 / 3, 1 / 3]] [0, 100, 0]
   \<and> thermal_energy (spacing_of 3) [0, 100, 0] = 25
   \<and> thermal_energy (spacing_of 3) [200 / 3, 100 / 3, 200 / 3] = 125 / 3
   \<and> thermal_energy (spacing_of 3)
        (history (simulate id cramer_solve 3 (1 / 48) 1 1 ''results/temperature'') ! 1)
      \<noteq> thermal_energy (spacing_of 3)
        (history (simulate id cramer_solve 3 (1 / 48) 1 1 ''results/temperature'') ! 0)"
  unfolding one_step_3 system_of_3
  by (simp add: thermal_energy_def spacing_of_3 mat_vec_def dot_def)

text \<open>
  Claim C5, amended.  With the closures the assembly builds, what every time step
  preserves is the spacing-weighted sum in which the first and the last cell count
  half: it is the same for the state before and after a step, whatever the state, the
  diffusivity and the time step, and so it is the same for every entry of the history
  of a run.  The plain weighted sum of the claim changes from one step to the next.
  The library's solve is taken to return the exact solution of the system.
\<close>

theorem trapezoid_energy_conserved:
  assumes "2 \<le> num_x" and "num_x + 1 \<le> INT_MAX"
    and "step_count total_time dt = Inr N"
    and "system_of num_x alpha dt = (LHS, RHS)"
    and "solves_system factorize solve LHS"
  shows "(\<forall>T. length T = nat num_x \<longrightarrow>
            trapezoid_energy (spacing_of num_x) (solve (factorize LHS) (mat_vec RHS T))
            = trapezoid_energy (spacing_of num_x) T)
       \<and> (\<forall>T \<in> set (history (simulate factorize solve num_x alpha dt total_time output_prefix)).
            trapezoid_energy (spacing_of num_x) T
            = trapezoid_energy (spacing_of num_x)
                (initial_profile (nat num_x) (spacing_of num_x)))"
proof -
  let ?dx = "spacing_of num_x"
  let ?first = "initial_profile (nat num_x) ?dx"
  let ?f = "advance solve (factorize LHS) RHS"
  have l0: "length ?first = nat num_x" by (simp add: initial_profile_def)
  have step: "\<forall>T. length T = nat num_x \<longrightarrow>
            trapezoid_energy ?dx (solve (factorize LHS) (mat_vec RHS T))
            = trapezoid_energy ?dx T"
    using advance_conserves(2) [OF assms(1,4,5), of _ ?dx] by (simp add: advance_def)
  have it: "trapezoid_energy ?dx ((?f ^^ k) ?first) = trapezoid_energy ?dx ?first" for k
    using iterates_conserve [OF assms(1,4,5) l0, of k ?dx] by simp
  have "\<forall>T \<in> set (history (simulate factorize solve num_x alpha dt total_time output_prefix)).
            trapezoid_energy ?dx T = trapezoid_energy ?dx ?first"
    unfolding simulate_run(2) [OF assms(1,2,3,4)] using it [of 0] it [of "Suc _"] by auto
  then show ?thesis using step by blast
qed

theorem trapezoid_energy_conserved_witness:
  "(2::int) \<le> 3 \<and> (3::int) + 1 \<le> INT_MAX \<and> step_count 1 1 = Inr 1
   \<and> solves_system id cramer_solve [[1, 0, 0], [0, 1, 0], [0, 0, 1]]
   \<and> trapezoid_energy (spacing_of 3) [200 / 3, 100 / 3, 200 / 3]
       = trapezoid_energy (spacing_of 3) [0, 100, 0]"
proof -
  have n: "(2::int) \<le> 3" "(3::int) + 1 \<le> INT_MAX" by (simp_all add: INT_MAX_def)
  have N: "step_count 1 1 = Inr 1"
    by (simp add: step_count_def double_div_def binary64_numeral truncate_toward_zero_def
        INT_MIN_def INT_MAX_def)
  note t = trapezoid_energy_conserved [where factorize = id and solve = cramer_solve
      and output_prefix = "''results/temperature''", OF n N system_of_3 solves_identity3]
  have "[200 / 3, 100 / 3, 200 / 3]
        \<in> set (history (simulate id cramer_solve 3 (1 / 48) 1 1 ''results/temperature''))"
    unfolding one_step_3 by simp
  then show ?thesis using n N solves_identity3 t
    by (simp add: initial_profile_3 [simplified] del: set_simps)
qed

subsection \<open>Zero diffusivity\<close>

lemma ex_max_abs:
  fixes d :: "nat \<Rightarrow> real"
  assumes "0 < n"
  shows "\<exists>k<n. \<forall>i<n. \<bar>d i\<bar> \<le> \<bar>d k\<bar>"
  using assms
proof (induction n)
  case 0
  then show ?case by simp
next
  case (Suc n)
  show ?case
  proof (cases "n = 0")
    case True
    then show ?thesis by simp
  next
    case False
    then obtain k where k: "k < n" "\<forall>i<n. \<bar>d i\<bar> \<le> \<bar>d k\<bar>" using Suc.IH by auto
    show ?thesis
    proof (cases "\<bar>d n\<bar> \<le> \<bar>d k\<bar>")
      case True
      then have "\<forall>i<Suc n. \<bar>d i\<bar> \<le> \<bar>d k\<bar>" using k(2) by (simp add: less_Suc_eq)
      then show ?thesis using k(1) by (intro exI [of _ k]) simp
    next
      case False
      then have "\<forall>i<Suc n. \<bar>d i\<bar> \<le> \<bar>d n\<bar>"
        using k(2) by (auto simp: less_Suc_eq intro: order_trans)
      then show ?thesis by (intro exI [of _ n]) simp
    qed
  qed
qed

lemma averaging_kernel:
  fixes d :: "nat \<Rightarrow> real"
  assumes n: "2 \<le> n"
    and rows: "\<And>i. i < n \<Longrightarrow> (\<Sum>j<n. closure_entry (1 / 6) (4 / 6) (2 / 6) n i j * d j) = 0"
  shows "\<forall>i<n. d i = 0"
proof -
  obtain m where m: "n = Suc (Suc m)"
    using n by (metis Suc_le_D numeral_2_eq_2 Suc_le_mono)
  obtain k where k: "k < n" and mx: "\<forall>i<n. \<bar>d i\<bar> \<le> \<bar>d k\<bar>"
    using ex_max_abs [of n d] n by auto
  consider "k = 0" | "k = Suc m" | "1 \<le> k" "k + 2 \<le> n"
    using k m by linarith
  then have "d k = 0"
  proof cases
    case 1
    have "4 / 6 * d 0 + 2 / 6 * d 1 = 0"
      using rows [of 0] closure_row_first [OF n, of "1 / 6" "4 / 6" "2 / 6" d] n by simp
    moreover have "\<bar>d 1\<bar> \<le> \<bar>d 0\<bar>" using mx n 1 by simp
    ultimately show ?thesis using 1 by (simp; linarith?)
  next
    case 2
    have "2 / 6 * d m + 4 / 6 * d (Suc m) = 0"
      using rows [of "Suc m"] closure_row_last [of "1 / 6" "4 / 6" "2 / 6" m d] m by simp
    moreover have "\<bar>d m\<bar> \<le> \<bar>d (Suc m)\<bar>" using mx m 2 by simp
    ultimately show ?thesis using 2 by (simp; linarith?)
  next
    case 3
    have "1 / 6 * d (k - 1) + 4 / 6 * d k + 1 / 6 * d (k + 1) = 0"
      using rows [OF k] closure_row_interior [OF 3, of "1 / 6" "4 / 6" "2 / 6" d] by simp
    moreover have "\<bar>d (k - 1)\<bar> \<le> \<bar>d k\<bar>" "\<bar>d (k + 1)\<bar> \<le> \<bar>d k\<bar>"
      using mx 3 by simp_all
    ultimately show ?thesis by (simp; linarith?)
  qed
  then show ?thesis using mx by auto
qed

lemma averaging_injective:
  assumes n: "2 \<le> n" and len: "length x = n" "length y = n"
    and eq: "mat_vec (averaging_operator n) x = mat_vec (averaging_operator n) y"
  shows "x = y"
proof -
  have ag: "agrees n (averaging_operator n) (closure_entry (1 / 6) (4 / 6) (2 / 6) n)"
    using agrees_averaging_operator [of n] by (simp add: averaging_closure)
  have "(\<Sum>j<n. closure_entry (1 / 6) (4 / 6) (2 / 6) n i j * (x ! j - y ! j)) = 0" if i: "i < n" for i
  proof -
    have "(\<Sum>j<n. closure_entry (1 / 6) (4 / 6) (2 / 6) n i j * x ! j)
          = (\<Sum>j<n. closure_entry (1 / 6) (4 / 6) (2 / 6) n i j * y ! j)"
      using mat_vec_nth [OF ag len(1) i] mat_vec_nth [OF ag len(2) i] eq by simp
    then show ?thesis by (simp add: right_diff_distrib sum_subtractf)
  qed
  then have "\<forall>i<n. x ! i - y ! i = 0"
    using averaging_kernel [OF n, of "\<lambda>j. x ! j - y ! j"] by simp
  then show ?thesis using len by (intro nth_equalityI) simp_all
qed

lemma zero_diffusivity_system:
  "system_of num_x 0 dt = (averaging_operator (nat num_x), averaging_operator (nat num_x))"
proof -
  let ?n = "nat num_x" and ?dx = "spacing_of num_x"
  obtain LHS RHS where sys: "system_of num_x 0 dt = (LHS, RHS)"
    by (cases "system_of num_x 0 dt")
  then have bs: "build_system (averaging_operator ?n) (diffusion_operator ?n ?dx) 0 dt = (LHS, RHS)"
    by (simp add: system_of_def)
  note ag = build_system_agrees [OF agrees_averaging_operator agrees_diffusion_operator bs]
  have "LHS = averaging_operator ?n"
    using ag(1) agrees_averaging_operator [of ?n] by (intro agrees_unique) simp_all
  moreover have "RHS = averaging_operator ?n"
    using ag(2) agrees_averaging_operator [of ?n] by (intro agrees_unique) simp_all
  ultimately show ?thesis using sys by simp
qed

lemma zero_diffusivity_step:
  assumes "2 \<le> n" "solves_system factorize solve (averaging_operator n)" "length T = n"
  shows "advance solve (factorize (averaging_operator n)) (averaging_operator n) T = T"
proof -
  let ?A = "averaging_operator n"
  have lenA: "length ?A = n" by (simp add: averaging_operator_def)
  have lenb: "length (mat_vec ?A T) = n" by (simp add: mat_vec_def lenA)
  have "length (advance solve (factorize ?A) ?A T) = n"
    and "mat_vec ?A (advance solve (factorize ?A) ?A T) = mat_vec ?A T"
    using assms(2) lenA lenb by (simp_all add: solves_system_def advance_def)
  then show ?thesis using averaging_injective [OF assms(1) _ assms(3)] by blast
qed

lemma averaging_operator_3:
  "averaging_operator (nat 3) = [[2 / 3, 1 / 3, 0], [1 / 6, 2 / 3, 1 / 6], [0, 1 / 3, 2 / 3]]"
  by (simp add: averaging_operator_def upt3 spec_averaging_entry_def)

lemma solves_averaging3:
  "solves_system id cramer_solve [[2 / 3, 1 / 3, 0], [1 / 6, 2 / 3, 1 / 6], [0, 1 / 3, 2 / 3]]"
proof -
  have "mat_vec [[2 / 3, 1 / 3, 0], [1 / 6, 2 / 3, 1 / 6], [0, 1 / 3, 2 / 3]]
          (cramer_solve [[2 / 3, 1 / 3, 0], [1 / 6, 2 / 3, 1 / 6], [0, 1 / 3, 2 / 3]] b) = b"
    if len: "length b = 3" for b
  proof -
    obtain x y z where b: "b = [x, y, z]" using length3 [OF len] by blast
    show ?thesis unfolding b
      by (simp add: cramer_solve_def replace_col_def upt_rec mat_vec_def dot_def)
         (auto simp: field_simps)
  qed
  then show ?thesis by (simp add: solves_system_def length_cramer_solve)
qed

text \<open>
  Claim C4.  With diffusivity zero, whatever the time step, the left-hand and the
  right-hand operator are both the averaging operator the assembly built.  When the
  library's solve returns the exact solution, a time step returns the state it was
  given, for every state, and every entry of the history of a run is the initial state.
\<close>

theorem zero_diffusivity_steady:
  assumes "2 \<le> num_x"
  shows "\<exists>A B. operator_assembly num_x (spacing_of num_x) = Inr (A, B)
           \<and> build_system A B 0 dt = (A, A)
           \<and> (solves_system factorize solve A \<longrightarrow>
                (\<forall>T. length T = nat num_x \<longrightarrow> solve (factorize A) (mat_vec A T) = T)
                \<and> (num_x + 1 \<le> INT_MAX \<and> step_count total_time dt = Inr N \<longrightarrow>
                     status (simulate factorize solve num_x 0 dt total_time output_prefix) = Exit 0
                     \<and> int (length (history (simulate factorize solve num_x 0 dt total_time
                              output_prefix))) = max N 0 + 1
                     \<and> (\<forall>T \<in> set (history (simulate factorize solve num_x 0 dt total_time
                              output_prefix)).
                           T = initial_profile (nat num_x) (spacing_of num_x))))"
proof -
  let ?n = "nat num_x" and ?dx = "spacing_of num_x"
  let ?A = "averaging_operator ?n" and ?B = "diffusion_operator ?n ?dx"
  let ?first = "initial_profile ?n ?dx"
  let ?r = "simulate factorize solve num_x 0 dt total_time output_prefix"
  have n: "2 \<le> ?n" using assms by simp
  have sys: "system_of num_x 0 dt = (?A, ?A)" by (rule zero_diffusivity_system)
  have 1: "operator_assembly num_x ?dx = Inr (?A, ?B)" by (rule operator_assembly_eq [OF assms])
  have 2: "build_system ?A ?B 0 dt = (?A, ?A)" using sys by (simp add: system_of_def)
  have 3: "(\<forall>T. length T = ?n \<longrightarrow> solve (factorize ?A) (mat_vec ?A T) = T)
           \<and> (num_x + 1 \<le> INT_MAX \<and> step_count total_time dt = Inr N \<longrightarrow>
                status ?r = Exit 0 \<and> int (length (history ?r)) = max N 0 + 1
                \<and> (\<forall>T \<in> set (history ?r). T = ?first))"
    if s: "solves_system factorize solve ?A"
  proof (intro conjI impI allI)
    fix T :: vec assume "length T = ?n"
    then show "solve (factorize ?A) (mat_vec ?A T) = T"
      using zero_diffusivity_step [OF n s] by (simp add: advance_def)
  next
    assume d: "num_x + 1 \<le> INT_MAX \<and> step_count total_time dt = Inr N"
    note run = simulate_run [OF assms conjunct1 [OF d] conjunct2 [OF d] sys,
        of factorize solve output_prefix]
    have l0: "length ?first = ?n" by (simp add: initial_profile_def)
    have it: "(advance solve (factorize ?A) ?A ^^ k) ?first = ?first" for k
      by (induction k) (simp_all add: zero_diffusivity_step [OF n s l0])
    show "status ?r = Exit 0" by (rule run(1))
    show "int (length (history ?r)) = max N 0 + 1" unfolding run(2) by simp
    show "\<forall>T \<in> set (history ?r). T = ?first"
      unfolding run(2) using it [of "Suc _"] by auto
  qed
  show ?thesis using 1 2 3 by blast
qed

theorem zero_diffusivity_steady_witness:
  "(2::int) \<le> 3 \<and> (3::int) + 1 \<le> INT_MAX \<and> step_count 2 1 = Inr 2
   \<and> solves_system id cramer_solve [[2 / 3, 1 / 3, 0], [1 / 6, 2 / 3, 1 / 6], [0, 1 / 3, 2 / 3]]
   \<and> operator_assembly 3 (spacing_of 3)
       = Inr ([[2 / 3, 1 / 3, 0], [1 / 6, 2 / 3, 1 / 6], [0, 1 / 3, 2 / 3]],
              [[- 32, 32, 0], [16, - 32, 16], [0, 32, - 32]])
   \<and> history (simulate id cramer_solve 3 0 1 2 ''results/temperature'')
       = [[0, 100, 0], [0, 100, 0], [0, 100, 0]]"
proof -
  let ?H = "history (simulate id cramer_solve 3 0 1 2 ''results/temperature'')"
  have n: "(2::int) \<le> 3" "(3::int) + 1 \<le> INT_MAX" by (simp_all add: INT_MAX_def)
  have N: "step_count 2 1 = Inr 2"
    by (simp add: step_count_def double_div_def binary64_numeral truncate_toward_zero_def
        INT_MIN_def INT_MAX_def)
  obtain A B where asm: "operator_assembly 3 (spacing_of 3) = Inr (A, B)"
    and run: "solves_system id cramer_solve A \<longrightarrow>
                (\<forall>T. length T = nat 3 \<longrightarrow> cramer_solve (id A) (mat_vec A T) = T)
                \<and> ((3::int) + 1 \<le> INT_MAX \<and> step_count 2 1 = Inr 2 \<longrightarrow>
                     status (simulate id cramer_solve 3 0 1 2 ''results/temperature'') = Exit 0
                     \<and> int (length ?H) = max 2 0 + 1
                     \<and> (\<forall>T \<in> set ?H. T = initial_profile (nat 3) (spacing_of 3)))"
    using zero_diffusivity_steady [OF n(1), where factorize = id and solve = cramer_solve
        and dt = 1 and total_time = 2 and N = 2 and output_prefix = "''results/temperature''"]
    by blast
  have A: "A = [[2 / 3, 1 / 3, 0], [1 / 6, 2 / 3, 1 / 6], [0, 1 / 3, 2 / 3]]"
    and B: "B = [[- 32, 32, 0], [16, - 32, 16], [0, 32, - 32]]"
    using asm operator_assembly_eq [OF n(1), of "spacing_of 3"]
    by (simp_all add: averaging_operator_3 [simplified] diffusion_operator_def upt3
        spec_diffusion_entry_def spacing_of_3)
  have len: "length ?H = 3" and all: "\<forall>T \<in> set ?H. T = [0, 100, 0]"
    using run solves_averaging3 n N unfolding A by (simp_all add: initial_profile_3 [simplified])
  have "replicate (length ?H) [0, 100, 0] = ?H"
    using all by (intro replicate_length_same) simp
  then have "?H = [[0, 100, 0], [0, 100, 0], [0, 100, 0]]"
    unfolding len by (simp add: eval_nat_numeral)
  then show ?thesis using n N solves_averaging3 asm A B by simp
qed

end
